theory Spec2Isabelle
  imports Main "HOL-Library.Word"
begin

section \<open>Bytes, buffers and JavaScript numbers\<close>

text \<open>
  A Node \<open>Buffer\<close> is a sequence of bytes. Lengths and offsets are non-negative integers;
  the only places where the program can leave the integers are the division in
  \<open>Math.floor(offset / blockLength)\<close> (by zero: \<open>Infinity\<close> or \<open>NaN\<close>) and the arithmetic on a
  value that is not a number at all (\<open>NaN\<close>), so a number is a natural number or one of these.
\<close>

type_synonym byte = "8 word"
type_synonym chunk = "byte list"

datatype endianness = LE | BE

datatype number = Num nat | Infinity | NaN

definition floor_div :: "nat \<Rightarrow> nat \<Rightarrow> number" where
  \<comment> \<open>\<open>Math.floor(a / b)\<close>\<close>
  "floor_div a b = (if b = 0 then (if a = 0 then NaN else Infinity) else Num (a div b))"

fun times :: "number \<Rightarrow> nat \<Rightarrow> number" where
  \<comment> \<open>\<open>x * n\<close>\<close>
  "times (Num a) n = Num (a * n)"
| "times Infinity n = (if n = 0 then NaN else Infinity)"
| "times NaN n = NaN"

fun less_than :: "number \<Rightarrow> nat \<Rightarrow> bool" where
  \<comment> \<open>\<open>x < n\<close>: every comparison with \<open>NaN\<close> is false\<close>
  "less_than (Num a) n = (a < n)"
| "less_than Infinity n = False"
| "less_than NaN n = False"

fun is_zero :: "number \<Rightarrow> bool" where
  \<comment> \<open>\<open>x == 0\<close>\<close>
  "is_zero (Num a) = (a = 0)"
| "is_zero Infinity = False"
| "is_zero NaN = False"

fun to_index :: "nat \<Rightarrow> number \<Rightarrow> nat" where
  \<comment> \<open>an argument of \<open>slice\<close>, clamped to the length: \<open>NaN\<close> counts as 0\<close>
  "to_index len (Num a) = min a len"
| "to_index len Infinity = len"
| "to_index len NaN = 0"

definition slice :: "chunk \<Rightarrow> number \<Rightarrow> number \<Rightarrow> chunk" where
  \<comment> \<open>\<open>buffer.slice(start, end)\<close>\<close>
  "slice b start end' =
     (let i = to_index (length b) start; j = to_index (length b) end'
      in take (j - i) (drop i b))"

definition copy :: "chunk \<Rightarrow> chunk \<Rightarrow> nat \<Rightarrow> nat \<Rightarrow> chunk" where
  \<comment> \<open>\<open>chunk.copy(buffer, offset, 0, length)\<close>, the target after the call;
      the callers pass \<open>length \<le> buffer.length - offset\<close> and \<open>length \<le> chunk.length\<close>\<close>
  "copy c buffer offset len =
     take offset buffer @ take len c @ drop (offset + len) buffer"

section \<open>The input stream\<close>

text \<open>
  \<open>Reader\<close> keeps its queue of chunks inside a Node \<open>PassThrough\<close> stream. Of that library
  class the model keeps what \<open>Reader\<close> relies on: the chunks buffered on the readable side
  (\<open>buf\<close>, next chunk first), whether \<open>end()\<close> has been called (\<open>ended\<close>), whether the stream
  is in flowing mode (\<open>flowing\<close>), whether it has emitted \<open>'end'\<close> (\<open>endEmitted\<close>), and whether
  the reader's \<open>onData\<close> and \<open>onEnd\<close> are registered on it. A chunk of length 0 is never
  buffered by the stream. A flowing stream emits one \<open>'data'\<close> event per buffered chunk,
  whether or not anybody listens, until a listener pauses it. It emits \<open>'end'\<close> when it has
  ended and is drained: right after the \<open>'data'\<close> event of its last chunk, before the code
  that awaits that chunk goes on, or else at the next attempt to read from it.
\<close>

record stream =
  buf :: "chunk list"
  ended :: bool
  flowing :: bool
  endEmitted :: bool
  dataListener :: bool
  endListener :: bool

definition PassThroughStream :: stream where
  \<comment> \<open>\<open>new PassThroughStream()\<close>: empty, open, no listeners\<close>
  "PassThroughStream =
     \<lparr>buf = [], ended = False, flowing = False, endEmitted = False,
      dataListener = False, endListener = False\<rparr>"

definition stream_pause :: "stream \<Rightarrow> stream" where
  "stream_pause s = s\<lparr>flowing := False\<rparr>"

definition stream_resume :: "stream \<Rightarrow> stream" where
  "stream_resume s = s\<lparr>flowing := True\<rparr>"

definition stream_write :: "chunk \<Rightarrow> stream \<Rightarrow> stream" where
  \<comment> \<open>\<open>stream.write(chunk)\<close> by the producer; a write after \<open>end()\<close> is refused by the stream\<close>
  "stream_write c s = (if ended s \<or> length c = 0 then s else s\<lparr>buf := buf s @ [c]\<rparr>)"

definition stream_end :: "chunk option \<Rightarrow> stream \<Rightarrow> stream" where
  \<comment> \<open>\<open>stream.end()\<close> and \<open>stream.end(chunk)\<close>\<close>
  "stream_end c s =
     (case c of None \<Rightarrow> s\<lparr>ended := True\<rparr> | Some c' \<Rightarrow> (stream_write c' s)\<lparr>ended := True\<rparr>)"

datatype error =
    EndOfInput
  | EndOfInputWith chunk number   \<comment> \<open>with the properties \<open>container\<close> (its bytes) and \<open>blockCount\<close>\<close>
  | TypeError                     \<comment> \<open>calling something that is not a function\<close>
  | RangeError                    \<comment> \<open>\<open>swap16/32/64\<close> on a buffer of the wrong size\<close>
  | UnshiftAfterEnd               \<comment> \<open>\<open>stream.unshift()\<close> after the \<open>'end'\<close> event\<close>
  | SourceFailure nat             \<comment> \<open>the error object that the byte source emitted\<close>
  | NotEnoughError                \<comment> \<open>the name of \<open>EndOfInput\<close> in the earlier revisions\<close>
  | NotEnoughErrorWith chunk number

definition stream_unshift :: "chunk \<Rightarrow> stream \<Rightarrow> error + stream" where
  \<comment> \<open>\<open>stream.unshift(chunk)\<close>: the chunk becomes the head of the buffer\<close>
  "stream_unshift c s =
     (if length c = 0 then Inr s
      else if endEmitted s then Inl UnshiftAfterEnd
      else Inr (s\<lparr>buf := c # buf s\<rparr>))"

section \<open>The reader of \<open>src/unnamed/part_001\<close>\<close>

text \<open>
  The fields behind the symbols \<open>DEFAULT_ENDIANNESS\<close>, \<open>INPUT\<close>, \<open>BYTES_READ\<close>,
  \<open>BYTES_UNREAD\<close> (\<open>None\<close> is \<open>undefined\<close>) and \<open>RESOLVE\<close> (\<open>True\<close> when it holds the
  \<open>resolve\<close> function of a pending chunk request, \<open>False\<close> when it is \<open>null\<close>).
\<close>

record reader =
  DEFAULT_ENDIANNESS :: endianness
  INPUT :: stream
  BYTES_READ :: nat
  BYTES_UNREAD :: "int option"
  RESOLVE :: bool

definition Reader :: "endianness \<Rightarrow> reader" where
  \<comment> \<open>the constructor: the listeners are registered on the stream made here, which starts paused\<close>
  "Reader defaultEndianness =
     \<lparr>DEFAULT_ENDIANNESS = defaultEndianness,
      INPUT = PassThroughStream\<lparr>dataListener := True, endListener := True\<rparr>,
      BYTES_READ = 0,
      BYTES_UNREAD = None,
      RESOLVE = False\<rparr>"

text \<open>What an event handler did to the pending chunk request.\<close>

datatype settle =
    NotSettled
  | Resolved "chunk option"   \<comment> \<open>\<open>resolve(chunk)\<close>, or \<open>resolve(null)\<close> as \<open>None\<close>\<close>
  | HandlerThrew error

definition onData :: "chunk \<Rightarrow> reader \<Rightarrow> settle \<times> reader" where
  "onData chunk r =
     (if length chunk = 0 then (NotSettled, r)
      else
        let r1 = r\<lparr>INPUT := stream_pause (INPUT r)\<rparr>;
            r2 = r1\<lparr>BYTES_READ := BYTES_READ r1 + length chunk\<rparr>;
            r3 = (case BYTES_UNREAD r2 of
                    None \<Rightarrow> r2
                  | Some n \<Rightarrow> r2\<lparr>BYTES_UNREAD := Some (n - int (length chunk))\<rparr>);
            resolve = RESOLVE r3;
            r4 = r3\<lparr>RESOLVE := False\<rparr>
        in if resolve then (Resolved (Some chunk), r4) else (HandlerThrew TypeError, r4))"

definition onEnd :: "reader \<Rightarrow> settle \<times> reader" where
  "onEnd r =
     (let r1 = r\<lparr>INPUT := (INPUT r)\<lparr>dataListener := False\<rparr>\<rparr>;
          r2 = r1\<lparr>BYTES_UNREAD := Some 0\<rparr>
      in if RESOLVE r2 then (Resolved None, r2\<lparr>RESOLVE := False\<rparr>) else (NotSettled, r2))"

text \<open>
  The result of an asynchronous call, once the events that the input stream can produce from
  what it holds have been handled: the promise is fulfilled, rejected, or still pending (it
  waits for input that has not been written); \<open>Crashed\<close> is an exception thrown inside an
  event handler, which no promise catches.
\<close>

datatype 'a outcome = Fulfilled 'a | Rejected error | Pending | Crashed error

lemma onData_NotSettled: "onData c r = (NotSettled, r') \<Longrightarrow> r' = r"
  by (auto simp: onData_def Let_def split: if_splits option.splits)

definition emit_end :: "reader \<Rightarrow> settle \<times> reader" where
  \<comment> \<open>the stream emits \<open>'end'\<close>; \<open>onEnd\<close> was registered with \<open>once\<close>\<close>
  "emit_end r =
     (let s = INPUT r;
          r1 = r\<lparr>INPUT := s\<lparr>endEmitted := True, endListener := False\<rparr>\<rparr>
      in if endListener s then onEnd r1 else (NotSettled, r1))"

definition end_due :: "stream \<Rightarrow> bool" where
  "end_due s = (buf s = [] \<and> ended s \<and> \<not> endEmitted s)"

function flow :: "reader \<Rightarrow> chunk option outcome \<times> reader" where
  "flow r =
     (let s = INPUT r in
      if \<not> flowing s then (Pending, r)
      else
        (case buf s of
           c # cs \<Rightarrow>
             (let r1 = r\<lparr>INPUT := s\<lparr>buf := cs\<rparr>\<rparr> in
              case (if dataListener s then onData c r1 else (NotSettled, r1)) of
                (NotSettled, r2) \<Rightarrow> flow r2
              | (Resolved v, r2) \<Rightarrow>
                  (Fulfilled v, if end_due (INPUT r2) then snd (emit_end r2) else r2)
              | (HandlerThrew e, r2) \<Rightarrow> (Crashed e, r2))
         | [] \<Rightarrow>
             if end_due s then
               (case emit_end r of
                  (NotSettled, r2) \<Rightarrow> (Pending, r2)
                | (Resolved v, r2) \<Rightarrow> (Fulfilled v, r2)
                | (HandlerThrew e, r2) \<Rightarrow> (Crashed e, r2))
             else (Pending, r)))"
  by pat_completeness auto
termination
  by (relation "measure (\<lambda>r. length (buf (INPUT r)))")
     (auto dest: onData_NotSettled [OF sym] split: if_splits)

declare flow.simps [simp del]

definition READ_CHUNK :: "reader \<Rightarrow> chunk option outcome \<times> reader" where
  "READ_CHUNK r =
     (if BYTES_UNREAD r = Some 0 then (Fulfilled None, r)
      else flow (r\<lparr>RESOLVE := True, INPUT := stream_resume (INPUT r)\<rparr>))"

definition UNREAD_CHUNK :: "chunk \<Rightarrow> reader \<Rightarrow> error + reader" where
  "UNREAD_CHUNK chunk r =
     (if length chunk = 0 then Inr r
      else if BYTES_UNREAD r \<noteq> Some 0 then
        (case stream_unshift chunk (INPUT r) of
           Inl e \<Rightarrow> Inl e
         | Inr s \<Rightarrow> Inr (r\<lparr>INPUT := s\<rparr>))
      else
        Inr (r\<lparr>INPUT := stream_end (Some chunk) PassThroughStream,
               BYTES_UNREAD := Some (int (length chunk))\<rparr>))"

lemma emit_end_Resolved: "emit_end r = (Resolved v, r') \<Longrightarrow> v = None"
  by (auto simp: emit_end_def onEnd_def Let_def split: if_splits)

lemma emit_end_not_chunk [simp]: "emit_end r \<noteq> (Resolved (Some c), r')"
  using emit_end_Resolved by blast

lemma onData_Resolved: "onData c r = (Resolved v, r') \<Longrightarrow> v = Some c \<and> c \<noteq> []"
  by (auto simp: onData_def Let_def split: if_splits option.splits)

lemma flow_chunk_nonempty: "flow r = (Fulfilled (Some c), r') \<Longrightarrow> c \<noteq> []"
proof (induction r rule: flow.induct)
  case (1 r)
  show ?case
    using "1.prems" "1.IH"
    by (subst (asm) flow.simps)
       (auto simp: Let_def
             dest: onData_Resolved
             split: if_splits list.splits prod.splits settle.splits)
qed

lemma READ_CHUNK_nonempty: "READ_CHUNK r = (Fulfilled (Some c), r') \<Longrightarrow> c \<noteq> []"
  by (auto simp: READ_CHUNK_def split: if_splits dest: flow_chunk_nonempty)

lemma length_copy:
  "offset + len \<le> length buffer \<Longrightarrow> len \<le> length c \<Longrightarrow>
   length (copy c buffer offset len) = length buffer"
  by (simp add: copy_def)

lemma loop_progress:
  assumes "offset < length buffer" and "chunk \<noteq> []"
  shows "length (copy chunk buffer offset (min (length buffer - offset) (length chunk)))
           - (offset + min (length buffer - offset) (length chunk))
         < length buffer - offset"
proof -
  let ?len = "min (length buffer - offset) (length chunk)"
  have "0 < ?len" using assms by (cases chunk) auto
  moreover have "length (copy chunk buffer offset ?len) = length buffer"
    using assms by (intro length_copy) auto
  ultimately show ?thesis using assms by linarith
qed

function READ_BUFFER_loop ::
  "nat \<Rightarrow> chunk \<Rightarrow> reader \<Rightarrow> (nat \<times> chunk) outcome \<times> reader" where
  "READ_BUFFER_loop offset buffer r =
     (if offset < length buffer then
        (case READ_CHUNK r of
           (Fulfilled None, r1) \<Rightarrow> (Fulfilled (offset, buffer), r1)
         | (Fulfilled (Some chunk), r1) \<Rightarrow>
             (let len = min (length buffer - offset) (length chunk);
                  buffer' = copy chunk buffer offset len;
                  offset' = offset + len
              in if len = length chunk then READ_BUFFER_loop offset' buffer' r1
                 else
                   (case UNREAD_CHUNK (drop len chunk) r1 of
                      Inl e \<Rightarrow> (Rejected e, r1)
                    | Inr r2 \<Rightarrow> READ_BUFFER_loop offset' buffer' r2))
         | (Rejected e, r1) \<Rightarrow> (Rejected e, r1)
         | (Pending, r1) \<Rightarrow> (Pending, r1)
         | (Crashed e, r1) \<Rightarrow> (Crashed e, r1))
      else (Fulfilled (offset, buffer), r))"
  by pat_completeness auto
termination
proof (relation "measure (\<lambda>(offset, buffer, r). length buffer - offset)", goal_cases)
  case 1
  show ?case by simp
next
  case (2 offset buffer r x1 r1 v chunk len buffer' offset')
  then have "chunk \<noteq> []"
    using READ_CHUNK_nonempty [of r chunk r1] by simp
  with 2 show ?case
    using loop_progress [of offset buffer chunk] by simp
next
  case (3 offset buffer r x1 r1 v chunk len buffer' offset' r2)
  then have "chunk \<noteq> []"
    using READ_CHUNK_nonempty [of r chunk r1] by simp
  with 3 show ?case
    using loop_progress [of offset buffer chunk] by simp
qed

declare READ_BUFFER_loop.simps [simp del]

definition READ_BUFFER ::
  "chunk \<Rightarrow> nat \<Rightarrow> reader \<Rightarrow> (number \<times> chunk) outcome \<times> reader" where
  \<comment> \<open>the result carries, with \<open>blockCount\<close>, the bytes of \<open>buffer\<close> as the call leaves them\<close>
  "READ_BUFFER buffer blockLength r =
     (case READ_BUFFER_loop 0 buffer r of
        (Fulfilled (offset, buffer'), r1) \<Rightarrow>
          (let blockCount = floor_div offset blockLength;
               excess = slice buffer' (times blockCount blockLength) (Num offset)
           in case UNREAD_CHUNK excess r1 of
                Inl e \<Rightarrow> (Rejected e, r1)
              | Inr r2 \<Rightarrow> (Fulfilled (blockCount, buffer'), r2))
      | (Rejected e, r1) \<Rightarrow> (Rejected e, r1)
      | (Pending, r1) \<Rightarrow> (Pending, r1)
      | (Crashed e, r1) \<Rightarrow> (Crashed e, r1))"

subsection \<open>Typed arrays and byte order\<close>

datatype arrayType =
    Int8Array | Uint8Array | Int16Array | Uint16Array
  | Int32Array | Uint32Array | Float32Array | Float64Array

fun BYTES_PER_ELEMENT :: "arrayType \<Rightarrow> nat" where
  "BYTES_PER_ELEMENT Int8Array = 1"
| "BYTES_PER_ELEMENT Uint8Array = 1"
| "BYTES_PER_ELEMENT Int16Array = 2"
| "BYTES_PER_ELEMENT Uint16Array = 2"
| "BYTES_PER_ELEMENT Int32Array = 4"
| "BYTES_PER_ELEMENT Uint32Array = 4"
| "BYTES_PER_ELEMENT Float32Array = 4"
| "BYTES_PER_ELEMENT Float64Array = 8"

text \<open>
  A container is a \<open>Buffer\<close> or a typed array, which is its element type and the bytes it
  views. A typed array stores every element in the byte order of the platform,
  \<open>nativeEndianness\<close>, which the functions below take as their first argument \<open>native\<close>.
\<close>

datatype container = Buffer chunk | TypedArray arrayType chunk

fun container_bytes :: "container \<Rightarrow> chunk" where
  "container_bytes (Buffer b) = b"
| "container_bytes (TypedArray t b) = b"

fun container_length :: "container \<Rightarrow> nat" where
  \<comment> \<open>\<open>container.length\<close>: bytes of a buffer, elements of a typed array\<close>
  "container_length (Buffer b) = length b"
| "container_length (TypedArray t b) = length b div BYTES_PER_ELEMENT t"

definition new_TypedArray :: "arrayType \<Rightarrow> nat \<Rightarrow> container" where
  \<comment> \<open>\<open>new TypedArray(n)\<close>: \<open>n\<close> elements, all zero\<close>
  "new_TypedArray t n = TypedArray t (replicate (n * BYTES_PER_ELEMENT t) 0)"

fun le_value :: "chunk \<Rightarrow> nat" where
  \<comment> \<open>the unsigned number whose little-endian representation the bytes are\<close>
  "le_value [] = 0"
| "le_value (b # bs) = unat b + 256 * le_value bs"

definition native_value :: "endianness \<Rightarrow> chunk \<Rightarrow> nat" where
  "native_value native bs = (case native of LE \<Rightarrow> le_value bs | BE \<Rightarrow> le_value (rev bs))"

definition signed :: "nat \<Rightarrow> nat \<Rightarrow> int" where
  \<comment> \<open>two's complement reading of an unsigned value of \<open>n\<close> bytes\<close>
  "signed n v = (if v < 2 ^ (8 * n - 1) then int v else int v - 2 ^ (8 * n))"

text \<open>
  What indexing a typed array returns. Floating-point elements are kept as their bit
  pattern (IEEE 754 binary32 or binary64), which the model does not decode.
\<close>

datatype element = Integer int | FloatBits nat | Undefined

fun decode :: "arrayType \<Rightarrow> nat \<Rightarrow> element" where
  "decode Int8Array v = Integer (signed 1 v)"
| "decode Uint8Array v = Integer (int v)"
| "decode Int16Array v = Integer (signed 2 v)"
| "decode Uint16Array v = Integer (int v)"
| "decode Int32Array v = Integer (signed 4 v)"
| "decode Uint32Array v = Integer (int v)"
| "decode Float32Array v = FloatBits v"
| "decode Float64Array v = FloatBits v"

definition index :: "endianness \<Rightarrow> container \<Rightarrow> nat \<Rightarrow> element" where
  \<comment> \<open>\<open>typedArray[i]\<close> (and \<open>buffer[i]\<close>)\<close>
  "index native c i =
     (if i < container_length c then
        (case c of
           Buffer b \<Rightarrow> Integer (uint (b ! i))
         | TypedArray t b \<Rightarrow>
             decode t (native_value native
               (take (BYTES_PER_ELEMENT t) (drop (i * BYTES_PER_ELEMENT t) b))))
      else Undefined)"

definition swap_groups :: "nat \<Rightarrow> chunk \<Rightarrow> chunk" where
  \<comment> \<open>every group of \<open>n\<close> bytes reversed in place\<close>
  "swap_groups n b = concat (map (\<lambda>i. rev (take n (drop (i * n) b))) [0..<length b div n])"

definition swap :: "nat \<Rightarrow> chunk \<Rightarrow> error + chunk" where
  \<comment> \<open>\<open>readPart[`swap${elementLength * 8}`]()\<close>: \<open>Buffer\<close> has \<open>swap16\<close>, \<open>swap32\<close> and
      \<open>swap64\<close>, which refuse a length that is not a multiple of their width, and no \<open>swap8\<close>\<close>
  "swap elementLength b =
     (if elementLength \<notin> {2, 4, 8} then Inl TypeError
      else if length b mod elementLength \<noteq> 0 then Inl RangeError
      else Inr (swap_groups elementLength b))"

definition READ_TYPED_ARRAY ::
  "endianness \<Rightarrow> arrayType \<times> chunk \<Rightarrow> nat \<Rightarrow> endianness \<Rightarrow> reader \<Rightarrow>
     (number \<times> chunk) outcome \<times> reader" where
  "READ_TYPED_ARRAY native typedArray blockLength endianness r =
     (let elementLength = BYTES_PER_ELEMENT (fst typedArray);
          buffer = snd typedArray
      in case READ_BUFFER buffer (blockLength * elementLength) r of
           (Fulfilled (blockCount, buffer'), r1) \<Rightarrow>
             if endianness \<noteq> native then
               (let readPart =
                      slice buffer' (Num 0) (times (times blockCount blockLength) elementLength)
                in case swap elementLength readPart of
                     Inl e \<Rightarrow> (Rejected e, r1)
                   | Inr swapped \<Rightarrow>
                       (Fulfilled (blockCount, swapped @ drop (length readPart) buffer'), r1))
             else (Fulfilled (blockCount, buffer'), r1)
         | (Rejected e, r1) \<Rightarrow> (Rejected e, r1)
         | (Pending, r1) \<Rightarrow> (Pending, r1)
         | (Crashed e, r1) \<Rightarrow> (Crashed e, r1))"

subsection \<open>The public methods\<close>

record options =
  opt_blockLength :: nat
  opt_endianness :: "endianness option"
  opt_allowPart :: bool

definition default_options :: options where
  \<comment> \<open>\<open>{ blockLength = 1, endianness, allowPart = false }\<close>\<close>
  "default_options = \<lparr>opt_blockLength = 1, opt_endianness = None, opt_allowPart = False\<rparr>"

text \<open>
  In \<open>read\<close>, the statement
  \<^verbatim>\<open>let blockCount = await Buffer.isBuffer(container) ? this[READ_BUFFER](..) : this[READ_TYPED_ARRAY](..)\<close>
  awaits the test and not the call, because \<open>await\<close> binds tighter than \<open>? :\<close>. The chosen
  call is started and \<open>blockCount\<close> is its promise. A variable that should hold a number is
  therefore a number or a promise, and a promise used in arithmetic is \<open>NaN\<close>.
\<close>

datatype 'a held = Value 'a | PromiseOf "'a outcome"

fun ToNumber :: "number held \<Rightarrow> number" where
  "ToNumber (Value n) = n"
| "ToNumber (PromiseOf p) = NaN"

definition started_count :: "(number \<times> chunk) outcome \<Rightarrow> number outcome" where
  \<comment> \<open>the promise of a started fill, as the promise of its block count\<close>
  "started_count p =
     (case p of
        Fulfilled (blockCount, bytes) \<Rightarrow> Fulfilled blockCount
      | Rejected e \<Rightarrow> Rejected e
      | Pending \<Rightarrow> Pending
      | Crashed e \<Rightarrow> Crashed e)"

fun returned :: "number held \<Rightarrow> number option outcome" where
  \<comment> \<open>what an \<open>async\<close> function comes to when it returns the value: it follows a promise\<close>
  "returned (Value n) = Fulfilled (Some n)"
| "returned (PromiseOf (Fulfilled n)) = Fulfilled (Some n)"
| "returned (PromiseOf (Rejected e)) = Rejected e"
| "returned (PromiseOf Pending) = Pending"
| "returned (PromiseOf (Crashed e)) = Crashed e"

definition read ::
  "endianness \<Rightarrow> container \<Rightarrow> options \<Rightarrow> reader \<Rightarrow> number option outcome \<times> reader" where
  \<comment> \<open>\<open>Fulfilled None\<close> is a return without a value; the reader returned is the one the
      started fill leaves\<close>
  "read native container opts r =
     (let blockLength = opt_blockLength opts;
          endianness = (case opt_endianness opts of
                          None \<Rightarrow> DEFAULT_ENDIANNESS r
                        | Some e \<Rightarrow> e);
          started = (case container of
                       Buffer b \<Rightarrow> READ_BUFFER b blockLength r
                     | TypedArray t b \<Rightarrow> READ_TYPED_ARRAY native (t, b) blockLength endianness r);
          blockCount = PromiseOf (started_count (fst started));
          r1 = snd started
      in if opt_allowPart opts then (returned blockCount, r1)
         else if less_than (times (ToNumber blockCount) blockLength) (container_length container)
         then (Rejected (EndOfInputWith (container_bytes container) (ToNumber blockCount)), r1)
         else (Fulfilled None, r1))"

definition readLE ::
  "endianness \<Rightarrow> container \<Rightarrow> options \<Rightarrow> reader \<Rightarrow> number option outcome \<times> reader" where
  "readLE native container opts r = read native container (opts\<lparr>opt_endianness := Some LE\<rparr>) r"

definition readBE ::
  "endianness \<Rightarrow> container \<Rightarrow> options \<Rightarrow> reader \<Rightarrow> number option outcome \<times> reader" where
  "readBE native container opts r = read native container (opts\<lparr>opt_endianness := Some BE\<rparr>) r"

datatype methodTypeName = Int8 | Int16 | Int32 | UInt8 | UInt16 | UInt32 | Float | Double

fun TypedArray_of :: "methodTypeName \<Rightarrow> arrayType" where
  \<comment> \<open>the table of the loop that defines the scalar methods, \<open>['Int16', Int8Array]\<close> included\<close>
  "TypedArray_of Int8 = Int8Array"
| "TypedArray_of Int16 = Int8Array"
| "TypedArray_of Int32 = Int32Array"
| "TypedArray_of UInt8 = Uint8Array"
| "TypedArray_of UInt16 = Uint16Array"
| "TypedArray_of UInt32 = Uint32Array"
| "TypedArray_of Float = Float32Array"
| "TypedArray_of Double = Float64Array"

definition readX ::
  "endianness \<Rightarrow> methodTypeName \<Rightarrow> endianness option \<Rightarrow> reader \<Rightarrow> element outcome \<times> reader" where
  \<comment> \<open>\<open>read${methodTypeName}({ endianness })\<close>\<close>
  "readX native methodTypeName endianness_opt r =
     (let endianness = (case endianness_opt of
                          None \<Rightarrow> DEFAULT_ENDIANNESS r
                        | Some e \<Rightarrow> e);
          t = TypedArray_of methodTypeName;
          typedArray = new_TypedArray t 1
      in case READ_TYPED_ARRAY native (t, container_bytes typedArray) 1 endianness r of
           (Fulfilled (blockCount, bytes), r1) \<Rightarrow>
             if is_zero blockCount then (Rejected EndOfInput, r1)
             else (Fulfilled (index native (TypedArray t bytes) 0), r1)
         | (Rejected e, r1) \<Rightarrow> (Rejected e, r1)
         | (Pending, r1) \<Rightarrow> (Pending, r1)
         | (Crashed e, r1) \<Rightarrow> (Crashed e, r1))"

definition readXLE :: "endianness \<Rightarrow> methodTypeName \<Rightarrow> reader \<Rightarrow> element outcome \<times> reader" where
  "readXLE native methodTypeName r = readX native methodTypeName (Some LE) r"

definition readXBE :: "endianness \<Rightarrow> methodTypeName \<Rightarrow> reader \<Rightarrow> element outcome \<times> reader" where
  "readXBE native methodTypeName r = readX native methodTypeName (Some BE) r"

definition input_write :: "chunk \<Rightarrow> reader \<Rightarrow> reader" where
  \<comment> \<open>\<open>reader.input.write(chunk)\<close>, while no read is pending\<close>
  "input_write c r = r\<lparr>INPUT := stream_write c (INPUT r)\<rparr>"

definition input_end :: "reader \<Rightarrow> reader" where
  \<comment> \<open>\<open>reader.input.end()\<close>, while no read is pending\<close>
  "input_end r = r\<lparr>INPUT := stream_end None (INPUT r)\<rparr>"

definition queued :: "reader \<Rightarrow> chunk" where
  \<comment> \<open>the bytes that the input stream holds, in the order of delivery\<close>
  "queued r = concat (buf (INPUT r))"

section \<open>The reader of \<open>src/proreader.js\<close>\<close>

text \<open>
  \<open>ProReader\<close> pipes the source into a \<open>PassThrough\<close> stream of its own (\<open>_stream\<close>), keeps the
  chunks it has taken from it in the array \<open>_data\<close>, and listens for \<open>'error'\<close> on the source.
  The fields \<open>_stream\<close>, \<open>_error\<close> (\<open>None\<close> is \<open>null\<close>), \<open>_data\<close>, \<open>_end\<close>, \<open>_bytesRemain\<close>
  (\<open>None\<close> is \<open>undefined\<close>) and \<open>_resolve\<close> with \<open>_reject\<close>, which are set and cleared together
  (\<open>True\<close> when a chunk request is pending). \<open>errorListener\<close> tells whether \<open>_errorHandler\<close>
  is still registered on the source.
\<close>

record proreader =
  pr_stream :: stream
  pr_error :: "nat option"
  pr_data :: "chunk list"
  pr_end :: bool
  pr_bytesRemain :: "int option"
  pr_resolve :: bool
  errorListener :: bool

definition ProReader :: proreader where
  "ProReader =
     \<lparr>pr_stream = PassThroughStream\<lparr>dataListener := True, endListener := True\<rparr>,
      pr_error = None,
      pr_data = [],
      pr_end = False,
      pr_bytesRemain = None,
      pr_resolve = False,
      errorListener = True\<rparr>"

datatype pr_settle =
    Quiet
  | ResolveWith "chunk option"   \<comment> \<open>\<open>resolve(chunk)\<close>, or \<open>resolve(null)\<close> as \<open>None\<close>\<close>
  | RejectWith error             \<comment> \<open>\<open>reject(this._error)\<close>\<close>

definition pause_unless_over :: "proreader \<Rightarrow> proreader" where
  \<comment> \<open>\<open>if (!this._end && !this._error) { this._stream.pause(); }\<close>\<close>
  "pause_unless_over s =
     (if \<not> pr_end s \<and> pr_error s = None then s\<lparr>pr_stream := stream_pause (pr_stream s)\<rparr>
      else s)"

definition add_bytesRemain :: "int \<Rightarrow> proreader \<Rightarrow> proreader" where
  \<comment> \<open>\<open>if (this._end || this._error) { this._bytesRemain += n; }\<close>; arithmetic on
      \<open>undefined\<close> does not give a count\<close>
  "add_bytesRemain n s =
     (if pr_end s \<or> pr_error s \<noteq> None then
        s\<lparr>pr_bytesRemain := map_option (\<lambda>m. m + n) (pr_bytesRemain s)\<rparr>
      else s)"

definition pr_dispatch :: "proreader \<Rightarrow> pr_settle \<times> proreader" where
  "pr_dispatch s =
     (if \<not> pr_resolve s then (Quiet, pause_unless_over s)
      else
        (case pr_data s of
           chunk # rest \<Rightarrow>
             (let s1 = pause_unless_over s;
                  s2 = s1\<lparr>pr_data := rest\<rparr>;
                  s3 = add_bytesRemain (- int (length chunk)) s2
              in (ResolveWith (Some chunk), s3\<lparr>pr_resolve := False\<rparr>))
         | [] \<Rightarrow>
             if pr_end s then (ResolveWith None, s\<lparr>pr_resolve := False\<rparr>)
             else
               (case pr_error s of
                  Some e \<Rightarrow> (RejectWith (SourceFailure e), s\<lparr>pr_resolve := False\<rparr>)
                | None \<Rightarrow> (Quiet, s\<lparr>pr_stream := stream_resume (pr_stream s)\<rparr>))))"

definition count_remaining :: "proreader \<Rightarrow> proreader" where
  \<comment> \<open>\<open>this._bytesRemain = 0; for (let chunk of this._data) { this._bytesRemain += chunk.length; }\<close>\<close>
  "count_remaining s = s\<lparr>pr_bytesRemain := Some (int (length (concat (pr_data s))))\<rparr>"

definition pr_errorHandler :: "nat \<Rightarrow> proreader \<Rightarrow> pr_settle \<times> proreader" where
  \<comment> \<open>registered with \<open>once\<close> on the source\<close>
  "pr_errorHandler e s =
     (let s1 = s\<lparr>errorListener := False,
                   pr_stream := (pr_stream s)\<lparr>dataListener := False, endListener := False\<rparr>\<rparr>;
          s2 = s1\<lparr>pr_error := Some e\<rparr>
      in pr_dispatch (count_remaining s2))"

definition pr_dataHandler :: "chunk \<Rightarrow> proreader \<Rightarrow> pr_settle \<times> proreader" where
  "pr_dataHandler chunk s = pr_dispatch (s\<lparr>pr_data := pr_data s @ [chunk]\<rparr>)"

definition pr_endHandler :: "proreader \<Rightarrow> pr_settle \<times> proreader" where
  \<comment> \<open>registered with \<open>once\<close> on \<open>_stream\<close>\<close>
  "pr_endHandler s =
     (let s1 = s\<lparr>errorListener := False,
                   pr_stream := (pr_stream s)\<lparr>dataListener := False, endListener := False\<rparr>\<rparr>;
          s2 = s1\<lparr>pr_end := True\<rparr>
      in pr_dispatch (count_remaining s2))"

definition pr_ungetChunk :: "chunk \<Rightarrow> proreader \<Rightarrow> proreader" where
  "pr_ungetChunk chunk s =
     add_bytesRemain (int (length chunk)) (s\<lparr>pr_data := chunk # pr_data s\<rparr>)"

definition source_error :: "nat \<Rightarrow> proreader \<Rightarrow> pr_settle \<times> proreader" where
  \<comment> \<open>the source emits \<open>'error'\<close>\<close>
  "source_error e s = (if errorListener s then pr_errorHandler e s else (Quiet, s))"

lemma pr_dispatch_stream_buf: "buf (pr_stream (snd (pr_dispatch s))) = buf (pr_stream s)"
  by (simp add: pr_dispatch_def pause_unless_over_def add_bytesRemain_def stream_pause_def
                stream_resume_def Let_def split: list.splits option.splits)

lemma pr_dataHandler_stream_buf:
  "pr_dataHandler c s = (x, s') \<Longrightarrow> buf (pr_stream s') = buf (pr_stream s)"
  using pr_dispatch_stream_buf [of "s\<lparr>pr_data := pr_data s @ [c]\<rparr>"]
  by (simp add: pr_dataHandler_def)

function pr_flow :: "proreader \<Rightarrow> chunk option outcome \<times> proreader" where
  "pr_flow s =
     (let st = pr_stream s in
      if \<not> flowing st then (Pending, s)
      else
        (case buf st of
           c # cs \<Rightarrow>
             (let s1 = s\<lparr>pr_stream := st\<lparr>buf := cs\<rparr>\<rparr> in
              case (if dataListener st then pr_dataHandler c s1 else (Quiet, s1)) of
                (Quiet, s2) \<Rightarrow> pr_flow s2
              | (ResolveWith v, s2) \<Rightarrow>
                  (Fulfilled v,
                   if end_due (pr_stream s2) then
                     (let s3 = s2\<lparr>pr_stream := (pr_stream s2)\<lparr>endEmitted := True\<rparr>\<rparr>
                      in if endListener (pr_stream s2) then snd (pr_endHandler s3) else s3)
                   else s2)
              | (RejectWith e, s2) \<Rightarrow> (Rejected e, s2))
         | [] \<Rightarrow>
             if end_due st then
               (let s1 = s\<lparr>pr_stream := st\<lparr>endEmitted := True\<rparr>\<rparr> in
                if endListener st then
                  (case pr_endHandler s1 of
                     (Quiet, s2) \<Rightarrow> (Pending, s2)
                   | (ResolveWith v, s2) \<Rightarrow> (Fulfilled v, s2)
                   | (RejectWith e, s2) \<Rightarrow> (Rejected e, s2))
                else (Pending, s1))
             else (Pending, s)))"
  by pat_completeness auto
termination
  by (relation "measure (\<lambda>s. length (buf (pr_stream s)))")
     (auto dest: pr_dataHandler_stream_buf [OF sym] split: if_splits)

declare pr_flow.simps [simp del]

definition pr_getChunk :: "proreader \<Rightarrow> chunk option outcome \<times> proreader" where
  \<comment> \<open>\<open>_getChunk\<close>, and what the returned promise comes to\<close>
  "pr_getChunk s =
     (case pr_dispatch (s\<lparr>pr_resolve := True\<rparr>) of
        (Quiet, s1) \<Rightarrow> pr_flow s1
      | (ResolveWith v, s1) \<Rightarrow> (Fulfilled v, s1)
      | (RejectWith e, s1) \<Rightarrow> (Rejected e, s1))"

definition queue_count :: "proreader \<Rightarrow> nat" where
  "queue_count s = length (pr_data s) + length (buf (pr_stream s))"

lemma pr_dispatch_count:
  "pr_dispatch s = (x, s') \<Longrightarrow>
   queue_count s' \<le> queue_count s \<and> (\<forall>c. x = ResolveWith (Some c) \<longrightarrow> queue_count s' < queue_count s)"
  by (auto simp: pr_dispatch_def pause_unless_over_def add_bytesRemain_def stream_pause_def
                stream_resume_def Let_def queue_count_def split: list.splits option.splits if_splits)

lemma pr_endHandler_count:
  "pr_endHandler s = (x, s') \<Longrightarrow>
   queue_count s' \<le> queue_count s \<and> (\<forall>c. x = ResolveWith (Some c) \<longrightarrow> queue_count s' < queue_count s)"
  unfolding pr_endHandler_def Let_def
  by (drule pr_dispatch_count) (simp add: count_remaining_def queue_count_def)

lemma pr_dataHandler_count:
  "pr_dataHandler c s = (x, s') \<Longrightarrow>
   queue_count s' \<le> Suc (queue_count s) \<and> (\<forall>c. x = ResolveWith (Some c) \<longrightarrow> queue_count s' \<le> queue_count s)"
  using pr_dispatch_count [of "s\<lparr>pr_data := pr_data s @ [c]\<rparr>" x s']
  by (auto simp: pr_dataHandler_def queue_count_def)

lemma pr_flow_count:
  "queue_count (snd (pr_flow s)) \<le> queue_count s \<and>
   (\<forall>c. fst (pr_flow s) = Fulfilled (Some c) \<longrightarrow> queue_count (snd (pr_flow s)) < queue_count s)"
proof (induction s rule: pr_flow.induct)
  case (1 s)
  let ?st = "pr_stream s"
  show ?case
  proof (cases "flowing ?st")
    case False
    then have "pr_flow s = (Pending, s)" by (subst pr_flow.simps) (simp add: Let_def)
    then show ?thesis by simp
  next
    case True
    show ?thesis
    proof (cases "buf ?st")
      case Nil
      have "pr_flow s =
        (if end_due ?st then
               (let s1 = s\<lparr>pr_stream := ?st\<lparr>endEmitted := True\<rparr>\<rparr> in
                if endListener ?st then
                  (case pr_endHandler s1 of
                     (Quiet, s2) \<Rightarrow> (Pending, s2)
                   | (ResolveWith v, s2) \<Rightarrow> (Fulfilled v, s2)
                   | (RejectWith e, s2) \<Rightarrow> (Rejected e, s2))
                else (Pending, s1))
             else (Pending, s))"
        using True Nil by (subst pr_flow.simps) (simp add: Let_def)
      moreover have "\<And>x s2. pr_endHandler (s\<lparr>pr_stream := ?st\<lparr>endEmitted := True\<rparr>\<rparr>) = (x, s2) \<Longrightarrow>
         queue_count s2 \<le> queue_count s \<and> (\<forall>c. x = ResolveWith (Some c) \<longrightarrow> queue_count s2 < queue_count s)"
        by (drule pr_endHandler_count) (simp add: queue_count_def)
      moreover have "queue_count (s\<lparr>pr_stream := ?st\<lparr>endEmitted := True\<rparr>\<rparr>) = queue_count s"
        by (simp add: queue_count_def)
      ultimately show ?thesis
        by (auto simp: Let_def split: prod.splits pr_settle.splits)
    next
      case (Cons c cs)
      let ?s1 = "s\<lparr>pr_stream := ?st\<lparr>buf := cs\<rparr>\<rparr>"
      obtain x s2 where h: "(if dataListener ?st then pr_dataHandler c ?s1 else (Quiet, ?s1)) = (x, s2)"
        by fastforce
      have c1: "Suc (queue_count ?s1) = queue_count s"
        using Cons by (simp add: queue_count_def)
      have hc: "queue_count s2 \<le> queue_count s"
        "\<And>c'. x = ResolveWith (Some c') \<Longrightarrow> queue_count s2 < queue_count s"
        using h c1 pr_dataHandler_count [of c ?s1 x s2]
        by (auto split: if_splits)
      have fl: "pr_flow s =
          (case x of
             Quiet \<Rightarrow> pr_flow s2
           | ResolveWith v \<Rightarrow>
               (Fulfilled v,
                if end_due (pr_stream s2) then
                  (let s3 = s2\<lparr>pr_stream := (pr_stream s2)\<lparr>endEmitted := True\<rparr>\<rparr>
                   in if endListener (pr_stream s2) then snd (pr_endHandler s3) else s3)
                else s2)
           | RejectWith e \<Rightarrow> (Rejected e, s2))"
        using True Cons h by (subst pr_flow.simps) (simp add: Let_def)
      show ?thesis
      proof (cases x)
        case Quiet
        have "queue_count (snd (pr_flow s2)) \<le> queue_count s2 \<and>
              (\<forall>c. fst (pr_flow s2) = Fulfilled (Some c) \<longrightarrow>
                   queue_count (snd (pr_flow s2)) < queue_count s2)"
          by (rule "1.IH"[of ?st c cs ?s1 x s2]) (use True Cons h Quiet in auto)
        with hc(1) fl Quiet show ?thesis by auto
      next
        case (ResolveWith v)
        let ?s3 = "s2\<lparr>pr_stream := (pr_stream s2)\<lparr>endEmitted := True\<rparr>\<rparr>"
        have e: "queue_count (snd (pr_endHandler ?s3)) \<le> queue_count s2"
          using pr_endHandler_count [of ?s3 "fst (pr_endHandler ?s3)" "snd (pr_endHandler ?s3)"]
          by (simp add: queue_count_def)
        have e3: "queue_count ?s3 = queue_count s2" by (simp add: queue_count_def)
        show ?thesis
          using fl ResolveWith hc e e3 by (cases v) (auto simp: Let_def)
      next
        case (RejectWith e)
        with fl hc show ?thesis by simp
      qed
    qed
  qed
qed

lemma pr_getChunk_count:
  "pr_getChunk s = (Fulfilled (Some c), s') \<Longrightarrow> queue_count s' < queue_count s"
proof -
  assume g: "pr_getChunk s = (Fulfilled (Some c), s')"
  let ?s0 = "s\<lparr>pr_resolve := True\<rparr>"
  obtain x s1 where d: "pr_dispatch ?s0 = (x, s1)" by fastforce
  have q0: "queue_count ?s0 = queue_count s" by (simp add: queue_count_def)
  note dc = pr_dispatch_count [OF d, unfolded q0]
  show ?thesis
  proof (cases x)
    case Quiet
    with g d have "pr_flow s1 = (Fulfilled (Some c), s')" by (simp add: pr_getChunk_def)
    with pr_flow_count [of s1] dc show ?thesis by simp
  next
    case (ResolveWith v)
    with g d dc show ?thesis by (simp add: pr_getChunk_def)
  next
    case (RejectWith e)
    with g d show ?thesis by (simp add: pr_getChunk_def)
  qed
qed

function pr_fillBuffer_loop ::
  "nat \<Rightarrow> chunk \<Rightarrow> proreader \<Rightarrow> (nat \<times> chunk) outcome \<times> proreader" where
  "pr_fillBuffer_loop offset buffer s =
     (if offset < length buffer then
        (case pr_getChunk s of
           (Fulfilled None, s1) \<Rightarrow> (Fulfilled (offset, buffer), s1)
         | (Fulfilled (Some chunk), s1) \<Rightarrow>
             (let len = min (length buffer - offset) (length chunk);
                  buffer' = copy chunk buffer offset len;
                  offset' = offset + len
              in if len = length chunk then pr_fillBuffer_loop offset' buffer' s1
                 else pr_fillBuffer_loop offset' buffer' (pr_ungetChunk (drop len chunk) s1))
         | (Rejected e, s1) \<Rightarrow> (Rejected e, s1)
         | (Pending, s1) \<Rightarrow> (Pending, s1)
         | (Crashed e, s1) \<Rightarrow> (Crashed e, s1))
      else (Fulfilled (offset, buffer), s))"
  by pat_completeness auto
termination
proof (relation "measures [\<lambda>(offset, buffer, s). length buffer - offset,
                           \<lambda>(offset, buffer, s). queue_count s]", goal_cases)
  case 1
  show ?case by simp
next
  case (2 offset buffer s x1 s1 v chunk len buffer' offset')
  then have q: "queue_count s1 < queue_count s"
    using pr_getChunk_count [of s chunk s1] by simp
  show ?case
  proof (cases "chunk = []")
    case True
    with 2 q show ?thesis by (simp add: copy_def)
  next
    case False
    with 2 show ?thesis
      using loop_progress [of offset buffer chunk] by simp
  qed
next
  case (3 offset buffer s x1 s1 v chunk len buffer' offset')
  then have "chunk \<noteq> []" by auto
  with 3 show ?case
    using loop_progress [of offset buffer chunk] by simp
qed

declare pr_fillBuffer_loop.simps [simp del]

definition pr_fillBuffer :: "chunk \<Rightarrow> proreader \<Rightarrow> (nat \<times> chunk) outcome \<times> proreader" where
  \<comment> \<open>\<open>_fillBuffer\<close>: the number of bytes copied, and the buffer as the call leaves it\<close>
  "pr_fillBuffer buffer s = pr_fillBuffer_loop 0 buffer s"

definition pr_fillTypedArray ::
  "endianness \<Rightarrow> arrayType \<times> chunk \<Rightarrow> endianness \<Rightarrow> proreader \<Rightarrow>
     (nat \<times> chunk) outcome \<times> proreader" where
  "pr_fillTypedArray native typedArray endianness s =
     (let bytesPerElement = BYTES_PER_ELEMENT (fst typedArray);
          buffer = snd typedArray
      in case pr_fillBuffer buffer s of
           (Fulfilled (byteLength, buffer'), s1) \<Rightarrow>
             (let len = byteLength div bytesPerElement;
                  chunk = slice buffer' (Num (len * bytesPerElement)) (Num byteLength);
                  s2 = (if length chunk > 0 then pr_ungetChunk chunk s1 else s1)
              in if endianness \<noteq> native then
                   (let readPart = slice buffer' (Num 0) (Num (len * bytesPerElement))
                    in case swap bytesPerElement readPart of
                         Inl e \<Rightarrow> (Rejected e, s2)
                       | Inr swapped \<Rightarrow>
                           (Fulfilled (len, swapped @ drop (length readPart) buffer'), s2))
                 else (Fulfilled (len, buffer'), s2))
         | (Rejected e, s1) \<Rightarrow> (Rejected e, s1)
         | (Pending, s1) \<Rightarrow> (Pending, s1)
         | (Crashed e, s1) \<Rightarrow> (Crashed e, s1))"

definition pr_readX ::
  "endianness \<Rightarrow> methodTypeName \<Rightarrow> endianness option \<Rightarrow> proreader \<Rightarrow>
     element outcome \<times> proreader" where
  \<comment> \<open>\<open>read${bufferName}(endianness = nativeEndianness)\<close>, with the same table of array types\<close>
  "pr_readX native bufferName endianness_opt s =
     (let endianness = (case endianness_opt of None \<Rightarrow> native | Some e \<Rightarrow> e);
          t = TypedArray_of bufferName;
          typedArray = new_TypedArray t 1
      in case pr_fillTypedArray native (t, container_bytes typedArray) endianness s of
           (Fulfilled (len, bytes), s1) \<Rightarrow>
             if len = 0 then (Rejected NotEnoughError, s1)
             else (Fulfilled (index native (TypedArray t bytes) 0), s1)
         | (Rejected e, s1) \<Rightarrow> (Rejected e, s1)
         | (Pending, s1) \<Rightarrow> (Pending, s1)
         | (Crashed e, s1) \<Rightarrow> (Crashed e, s1))"

definition pr_readXLE :: "endianness \<Rightarrow> methodTypeName \<Rightarrow> proreader \<Rightarrow> element outcome \<times> proreader" where
  \<comment> \<open>\<open>[methodName + 'LE'](endianness) { return this[methodName]('LE'); }\<close>\<close>
  "pr_readXLE native bufferName s = pr_readX native bufferName (Some LE) s"

definition pr_readXBE :: "endianness \<Rightarrow> methodTypeName \<Rightarrow> proreader \<Rightarrow> element outcome \<times> proreader" where
  \<comment> \<open>\<open>[methodName + 'BE'](endianness) { return this[methodName]('LE'); }\<close>\<close>
  "pr_readXBE native bufferName s = pr_readX native bufferName (Some LE) s"

text \<open>
  The source writes a chunk, or ends, and the pipe hands that to \<open>_stream\<close>. A paused stream
  buffers the chunk; a flowing one emits it at once, to the handlers that are registered or
  to nobody. \<open>source_emits\<close> gives also what a pending chunk request comes to.
\<close>

definition source_emits :: "chunk \<Rightarrow> proreader \<Rightarrow> chunk option outcome \<times> proreader" where
  "source_emits c s = pr_flow (s\<lparr>pr_stream := stream_write c (pr_stream s)\<rparr>)"

definition source_write :: "chunk \<Rightarrow> proreader \<Rightarrow> proreader" where
  "source_write c s = snd (source_emits c s)"

definition source_end :: "proreader \<Rightarrow> proreader" where
  "source_end s = snd (pr_flow (s\<lparr>pr_stream := stream_end None (pr_stream s)\<rparr>))"

section \<open>The chunk queue of \<open>src/reader.js\<close>\<close>

text \<open>
  \<open>src/reader.js\<close> keeps one array \<open>_events\<close> of what the source has sent and the reader has not
  handed on: \<open>{ data }\<close>, \<open>{ end: true }\<close> and \<open>{ error }\<close>, in the order of arrival. \<open>_dispatch\<close> takes
  the first of them for the pending request; it puts \<open>{ end: true }\<close> back, and nothing else.
\<close>

datatype event = DataEvent chunk | EndEvent | ErrorEvent nat

record rjreader =
  rj_stream :: stream
  rj_events :: "event list"
  rj_bytesRemain :: "int option"
  rj_resolve :: bool
  rj_errorListener :: bool

definition rj_Reader :: rjreader where
  "rj_Reader =
     \<lparr>rj_stream = PassThroughStream\<lparr>dataListener := True, endListener := True\<rparr>,
      rj_events = [],
      rj_bytesRemain = None,
      rj_resolve = False,
      rj_errorListener = True\<rparr>"

definition rj_dispatch :: "rjreader \<Rightarrow> pr_settle \<times> rjreader" where
  "rj_dispatch s =
     (if \<not> rj_resolve s then (Quiet, s)
      else
        (case rj_events s of
           [] \<Rightarrow> (Quiet, s\<lparr>rj_stream := stream_resume (rj_stream s)\<rparr>)
         | event # rest \<Rightarrow>
             (let s1 = s\<lparr>rj_events := rest\<rparr> in
              case event of
                DataEvent data \<Rightarrow>
                  (ResolveWith (Some data),
                   s1\<lparr>rj_resolve := False,
                        rj_bytesRemain :=
                          map_option (\<lambda>n. n - int (length data)) (rj_bytesRemain s1)\<rparr>)
              | EndEvent \<Rightarrow>
                  (ResolveWith None,
                   s1\<lparr>rj_resolve := False, rj_events := event # rest,
                        rj_bytesRemain := Some 0\<rparr>)
              | ErrorEvent e \<Rightarrow>
                  (RejectWith (SourceFailure e), s1\<lparr>rj_resolve := False\<rparr>))))"

definition rj_errorHandler :: "nat \<Rightarrow> rjreader \<Rightarrow> pr_settle \<times> rjreader" where
  \<comment> \<open>registered with \<open>once\<close> on the source\<close>
  "rj_errorHandler e s =
     rj_dispatch (s\<lparr>rj_errorListener := False,
                     rj_stream := stream_pause (rj_stream s),
                     rj_events := rj_events s @ [ErrorEvent e]\<rparr>)"

definition rj_dataHandler :: "chunk \<Rightarrow> rjreader \<Rightarrow> pr_settle \<times> rjreader" where
  "rj_dataHandler data s =
     rj_dispatch (s\<lparr>rj_stream := stream_pause (rj_stream s),
                     rj_events := rj_events s @ [DataEvent data]\<rparr>)"

definition rj_endHandler :: "rjreader \<Rightarrow> pr_settle \<times> rjreader" where
  \<comment> \<open>registered with \<open>once\<close> on \<open>_stream\<close>\<close>
  "rj_endHandler s =
     rj_dispatch (s\<lparr>rj_errorListener := False,
                     rj_stream := (rj_stream s)\<lparr>dataListener := False, endListener := False\<rparr>,
                     rj_events := rj_events s @ [EndEvent]\<rparr>)"

definition rj_readChunk :: "rjreader \<Rightarrow> pr_settle \<times> rjreader" where
  \<comment> \<open>\<open>_readChunk\<close>: \<open>Quiet\<close> when the request stays pending\<close>
  "rj_readChunk s = rj_dispatch (s\<lparr>rj_resolve := True\<rparr>)"

definition rj_unreadChunk :: "chunk \<Rightarrow> rjreader \<Rightarrow> rjreader" where
  "rj_unreadChunk chunk s =
     s\<lparr>rj_events := DataEvent chunk # rj_events s,
       rj_bytesRemain := map_option (\<lambda>n. n + int (length chunk)) (rj_bytesRemain s)\<rparr>"

section \<open>The reads of \<open>src/reader.js\<close> and \<open>src/unnamed/part_000\<close>\<close>

text \<open>
  \<open>src/unnamed/part_000\<close> has, word for word, the constructor, \<open>_dispatch\<close> and the chunk
  queue of \<open>src/proreader.js\<close> (its \<open>_readChunk\<close> and \<open>_unreadChunk\<close> are \<open>_getChunk\<close> and
  \<open>_ungetChunk\<close>), and the methods \<open>_readBuffer\<close>, \<open>_readTypedArray\<close> and \<open>read\<close> of
  \<open>src/reader.js\<close>. They are modelled here on that queue. \<open>_unreadChunk\<close> queues the excess
  also when it is empty, and \<open>read\<close> awaits the fill it starts.
\<close>

definition p0_readBuffer ::
  "chunk \<Rightarrow> nat \<Rightarrow> proreader \<Rightarrow> (number \<times> chunk) outcome \<times> proreader" where
  "p0_readBuffer buffer blockLength s =
     (case pr_fillBuffer_loop 0 buffer s of
        (Fulfilled (offset, buffer'), s1) \<Rightarrow>
          (let blockCount = floor_div offset blockLength;
               excess = slice buffer' (times blockCount blockLength) (Num offset)
           in (Fulfilled (blockCount, buffer'), pr_ungetChunk excess s1))
      | (Rejected e, s1) \<Rightarrow> (Rejected e, s1)
      | (Pending, s1) \<Rightarrow> (Pending, s1)
      | (Crashed e, s1) \<Rightarrow> (Crashed e, s1))"

definition p0_readTypedArray ::
  "endianness \<Rightarrow> arrayType \<times> chunk \<Rightarrow> nat \<Rightarrow> endianness \<Rightarrow> proreader \<Rightarrow>
     (number \<times> chunk) outcome \<times> proreader" where
  "p0_readTypedArray native typedArray blockLength endianness s =
     (let elementLength = BYTES_PER_ELEMENT (fst typedArray);
          buffer = snd typedArray
      in case p0_readBuffer buffer (blockLength * elementLength) s of
           (Fulfilled (blockCount, buffer'), s1) \<Rightarrow>
             if endianness \<noteq> native then
               (let readPart =
                      slice buffer' (Num 0) (times (times blockCount blockLength) elementLength)
                in case swap elementLength readPart of
                     Inl e \<Rightarrow> (Rejected e, s1)
                   | Inr swapped \<Rightarrow>
                       (Fulfilled (blockCount, swapped @ drop (length readPart) buffer'), s1))
             else (Fulfilled (blockCount, buffer'), s1)
         | (Rejected e, s1) \<Rightarrow> (Rejected e, s1)
         | (Pending, s1) \<Rightarrow> (Pending, s1)
         | (Crashed e, s1) \<Rightarrow> (Crashed e, s1))"

definition p0_read ::
  "endianness \<Rightarrow> container \<Rightarrow> options \<Rightarrow> proreader \<Rightarrow>
     number option outcome \<times> proreader" where
  \<comment> \<open>\<open>{ blockLength = 1, endianness = nativeEndianness, allowPart = false }\<close>\<close>
  "p0_read native container opts s =
     (let blockLength = opt_blockLength opts;
          endianness = (case opt_endianness opts of None \<Rightarrow> native | Some e \<Rightarrow> e)
      in case (case container of
                 Buffer b \<Rightarrow> p0_readBuffer b blockLength s
               | TypedArray t b \<Rightarrow> p0_readTypedArray native (t, b) blockLength endianness s) of
           (Fulfilled (blockCount, bytes), s1) \<Rightarrow>
             if opt_allowPart opts then (Fulfilled (Some blockCount), s1)
             else if less_than (times blockCount blockLength) (container_length container)
             then (Rejected (NotEnoughErrorWith bytes blockCount), s1)
             else (Fulfilled None, s1)
         | (Rejected e, s1) \<Rightarrow> (Rejected e, s1)
         | (Pending, s1) \<Rightarrow> (Pending, s1)
         | (Crashed e, s1) \<Rightarrow> (Crashed e, s1))"

definition p0_readX ::
  "endianness \<Rightarrow> methodTypeName \<Rightarrow> endianness option \<Rightarrow> proreader \<Rightarrow>
     element outcome \<times> proreader" where
  "p0_readX native methodTypeName endianness_opt s =
     (let endianness = (case endianness_opt of None \<Rightarrow> native | Some e \<Rightarrow> e);
          t = TypedArray_of methodTypeName;
          typedArray = new_TypedArray t 1
      in case p0_readTypedArray native (t, container_bytes typedArray) 1 endianness s of
           (Fulfilled (blockCount, bytes), s1) \<Rightarrow>
             if is_zero blockCount then (Rejected NotEnoughError, s1)
             else (Fulfilled (index native (TypedArray t bytes) 0), s1)
         | (Rejected e, s1) \<Rightarrow> (Rejected e, s1)
         | (Pending, s1) \<Rightarrow> (Pending, s1)
         | (Crashed e, s1) \<Rightarrow> (Crashed e, s1))"


section \<open>Notions used in the statements\<close>

text \<open>
  What holds of every reader of \<open>src/unnamed/part_001\<close> that the constructor and the methods
  can produce (\<open>consistent\<close>): once \<open>BYTES_UNREAD\<close> is 0 the input stream holds nothing;
  \<open>BYTES_UNREAD\<close> is defined only for a stream that has ended; \<open>onData\<close> and \<open>onEnd\<close> are
  registered together, and only on a stream that has not emitted \<open>'end'\<close>, while
  \<open>BYTES_UNREAD\<close> is undefined. A reader is \<open>listening\<close> while its handlers are registered on
  its input, \<open>live\<close> when it listens or has seen the end with nothing left, and \<open>pushable\<close>
  when \<open>UNREAD_CHUNK\<close> can queue a chunk (it would call \<open>unshift\<close> after \<open>'end'\<close> otherwise).
  \<open>chunk_post\<close> and \<open>loop_post\<close> say what a chunk request and the loop of \<open>READ_BUFFER\<close> leave.
\<close>

definition consistent :: "reader \<Rightarrow> bool" where
  "consistent r \<longleftrightarrow>
     (BYTES_UNREAD r = Some 0 \<longrightarrow> buf (INPUT r) = []) \<and>
     (BYTES_UNREAD r \<noteq> None \<longrightarrow> ended (INPUT r)) \<and>
     endListener (INPUT r) = dataListener (INPUT r) \<and>
     (dataListener (INPUT r) \<longrightarrow> BYTES_UNREAD r = None \<and> \<not> endEmitted (INPUT r))"

definition pushable :: "reader \<Rightarrow> bool" where
  "pushable r \<longleftrightarrow> BYTES_UNREAD r = Some 0 \<or> \<not> endEmitted (INPUT r)"

definition listening :: "reader \<Rightarrow> bool" where
  "listening r \<longleftrightarrow>
     dataListener (INPUT r) \<and> endListener (INPUT r) \<and> BYTES_UNREAD r = None \<and>
     \<not> endEmitted (INPUT r)"

fun chunk_post :: "reader \<Rightarrow> chunk option outcome \<times> reader \<Rightarrow> bool" where
  "chunk_post r (Fulfilled (Some c), r') \<longleftrightarrow>
     c \<noteq> [] \<and> queued r = c @ queued r' \<and> BYTES_READ r' = BYTES_READ r + length c \<and>
     consistent r' \<and> pushable r' \<and>
     (listening r' \<and> ended (INPUT r') = ended (INPUT r) \<or> BYTES_UNREAD r' = Some 0) \<and>
     DEFAULT_ENDIANNESS r' = DEFAULT_ENDIANNESS r"
| "chunk_post r (Fulfilled None, r') \<longleftrightarrow>
     queued r = [] \<and> queued r' = [] \<and> BYTES_READ r' = BYTES_READ r \<and>
     BYTES_UNREAD r' = Some 0 \<and> consistent r' \<and>
     DEFAULT_ENDIANNESS r' = DEFAULT_ENDIANNESS r"
| "chunk_post r (Pending, r') \<longleftrightarrow>
     consistent r' \<and> (listening r \<longrightarrow> queued r = [] \<and> \<not> ended (INPUT r))"
| "chunk_post r (Rejected e, r') \<longleftrightarrow> False"
| "chunk_post r (Crashed e, r') \<longleftrightarrow> False"

definition live :: "reader \<Rightarrow> bool" where
  "live r \<longleftrightarrow> listening r \<or> BYTES_UNREAD r = Some 0"

fun loop_post ::
  "nat \<Rightarrow> chunk \<Rightarrow> reader \<Rightarrow> (nat \<times> chunk) outcome \<times> reader \<Rightarrow> bool" where
  "loop_post offset buffer r (Fulfilled (offset', buffer'), r') \<longleftrightarrow>
     (let k = min (length buffer - offset) (length (queued r)) in
      offset' = offset + k \<and>
      buffer' = take offset buffer @ take k (queued r) @ drop (offset + k) buffer \<and>
      queued r' = drop k (queued r) \<and>
      consistent r' \<and> (offset < length buffer \<longrightarrow> pushable r') \<and>
      DEFAULT_ENDIANNESS r' = DEFAULT_ENDIANNESS r)"
| "loop_post offset buffer r (Pending, r') \<longleftrightarrow>
     consistent r' \<and>
     (live r \<longrightarrow> \<not> ended (INPUT r) \<and> length (queued r) < length buffer - offset)"
| "loop_post offset buffer r (Rejected e, r') \<longleftrightarrow> False"
| "loop_post offset buffer r (Crashed e, r') \<longleftrightarrow> False"

text \<open>The value a promise is fulfilled with, and the elements of a typed array.\<close>

definition fulfilled :: "'a outcome \<Rightarrow> 'a option" where
  "fulfilled p =
     (case p of Fulfilled x \<Rightarrow> Some x | Rejected e \<Rightarrow> None | Pending \<Rightarrow> None | Crashed e \<Rightarrow> None)"

definition elements :: "endianness \<Rightarrow> arrayType \<Rightarrow> chunk \<Rightarrow> element list" where
  "elements native t b =
     map (index native (TypedArray t b)) [0..<container_length (TypedArray t b)]"

text \<open>
  The scenario of the specification: the chunks \<open>[1,0,0,0]\<close>, \<open>[2,0,0]\<close>, \<open>[0,3]\<close>,
  \<open>[0,0,0,4]\<close>, \<open>[0,0]\<close> and the end, written before anything is read.
\<close>

definition scenario :: "endianness \<Rightarrow> reader" where
  "scenario native =
     input_end (input_write [0, 0] (input_write [0, 0, 0, 4] (input_write [0, 3]
       (input_write [2, 0, 0] (input_write [1, 0, 0, 0] (Reader native))))))"

text \<open>An input that ends after the two bytes 1 and 2.\<close>

definition ended_input :: reader where
  "ended_input = input_end (input_write [1, 2] (Reader LE))"

text \<open>
  For \<open>src/proreader.js\<close>: a reader is \<open>failed\<close> with the error \<open>e\<close> once \<open>_errorHandler\<close> has
  run. \<open>serve\<close> runs a sequence of chunk requests, push-backs and writes of the source, and
  gives what the requests come to; \<open>after_failure\<close> is that list as a plain queue gives it:
  queued chunks first, then the error for every request.
\<close>

definition failed :: "nat \<Rightarrow> proreader \<Rightarrow> bool" where
  "failed e s \<longleftrightarrow>
     pr_error s = Some e \<and> \<not> pr_end s \<and>
     \<not> dataListener (pr_stream s) \<and> \<not> endListener (pr_stream s) \<and> \<not> errorListener s"

datatype request = Get | Unget chunk | Write chunk

fun serve :: "request list \<Rightarrow> proreader \<Rightarrow> chunk option outcome list" where
  "serve [] s = []"
| "serve (Get # ops) s = fst (pr_getChunk s) # serve ops (snd (pr_getChunk s))"
| "serve (Unget c # ops) s = serve ops (pr_ungetChunk c s)"
| "serve (Write c # ops) s = serve ops (source_write c s)"

fun after_failure :: "nat \<Rightarrow> request list \<Rightarrow> chunk list \<Rightarrow> chunk option outcome list" where
  "after_failure e [] q = []"
| "after_failure e (Get # ops) [] = Rejected (SourceFailure e) # after_failure e ops []"
| "after_failure e (Get # ops) (c # q) = Fulfilled (Some c) # after_failure e ops q"
| "after_failure e (Unget c # ops) q = after_failure e ops (c # q)"
| "after_failure e (Write c # ops) q = after_failure e ops q"

section \<open>Properties of the reader of \<open>src/unnamed/part_001\<close>\<close>

lemma consistent_Reader: "consistent (Reader e)"
  by (simp add: consistent_def Reader_def PassThroughStream_def)

lemma consistent_input_write: "consistent r \<Longrightarrow> consistent (input_write c r)"
  by (auto simp: consistent_def input_write_def stream_write_def)

lemma consistent_input_end: "consistent r \<Longrightarrow> consistent (input_end r)"
  by (auto simp: consistent_def input_end_def stream_end_def)

lemma flow_no_listener:
  "\<not> dataListener (INPUT r) \<Longrightarrow> \<not> endListener (INPUT r) \<Longrightarrow>
   fst (flow r) = Pending \<and> BYTES_UNREAD (snd (flow r)) = BYTES_UNREAD r
   \<and> \<not> dataListener (INPUT (snd (flow r))) \<and> \<not> endListener (INPUT (snd (flow r)))
   \<and> ended (INPUT (snd (flow r))) = ended (INPUT r)
   \<and> (flowing (INPUT r) \<longrightarrow> buf (INPUT (snd (flow r))) = [])
   \<and> BYTES_READ (snd (flow r)) = BYTES_READ r"
proof (induction r rule: flow.induct)
  case (1 r)
  show ?case
  proof (cases "flowing (INPUT r)")
    case False
    then have "flow r = (Pending, r)" by (subst flow.simps) (simp add: Let_def)
    with False "1.prems" show ?thesis by simp
  next
    case True
    show ?thesis
    proof (cases "buf (INPUT r)")
      case Nil
      with True have "flow r = (if end_due (INPUT r) then
               (case emit_end r of
                  (NotSettled, r2) \<Rightarrow> (Pending, r2)
                | (Resolved v, r2) \<Rightarrow> (Fulfilled v, r2)
                | (HandlerThrew e, r2) \<Rightarrow> (Crashed e, r2))
             else (Pending, r))" by (subst flow.simps) (simp add: Let_def)
      with True Nil "1.prems" show ?thesis
        by (simp add: Let_def emit_end_def end_due_def)
    next
      case (Cons c cs)
      let ?r1 = "r\<lparr>INPUT := (INPUT r)\<lparr>buf := cs\<rparr>\<rparr>"
      have eq: "flow r = flow ?r1"
        using True Cons "1.prems" by (subst flow.simps) (simp add: Let_def)
      have "fst (flow ?r1) = Pending \<and> BYTES_UNREAD (snd (flow ?r1)) = BYTES_UNREAD ?r1
   \<and> \<not> dataListener (INPUT (snd (flow ?r1))) \<and> \<not> endListener (INPUT (snd (flow ?r1)))
   \<and> ended (INPUT (snd (flow ?r1))) = ended (INPUT ?r1)
   \<and> (flowing (INPUT ?r1) \<longrightarrow> buf (INPUT (snd (flow ?r1))) = [])
   \<and> BYTES_READ (snd (flow ?r1)) = BYTES_READ ?r1"
        by (rule "1.IH"[of "INPUT r" c cs ?r1 NotSettled ?r1]) (use True Cons "1.prems" in auto)
      with eq True show ?thesis by simp
    qed
  qed
qed

lemma flow_listening:
  "listening r \<Longrightarrow> RESOLVE r \<Longrightarrow> flowing (INPUT r) \<Longrightarrow> chunk_post r (flow r)"
proof (induction r rule: flow.induct)
  case (1 r)
  show ?case
  proof (cases "buf (INPUT r)")
    case Nil
    with "1.prems" show ?thesis
      by (subst flow.simps)
         (simp add: Let_def emit_end_def end_due_def onEnd_def listening_def queued_def
                    consistent_def)
  next
    case (Cons c cs)
    let ?r1 = "r\<lparr>INPUT := (INPUT r)\<lparr>buf := cs\<rparr>\<rparr>"
    show ?thesis
    proof (cases "c = []")
      case True
      have eq: "flow r = flow ?r1"
        using True Cons "1.prems"
        by (subst flow.simps) (simp add: Let_def listening_def onData_def)
      have "chunk_post ?r1 (flow ?r1)"
        by (rule "1.IH"[of "INPUT r" c cs ?r1 NotSettled ?r1])
           (use True Cons "1.prems" in \<open>auto simp: listening_def onData_def\<close>)
      moreover have "queued ?r1 = queued r" "BYTES_READ ?r1 = BYTES_READ r"
        "ended (INPUT ?r1) = ended (INPUT r)" "DEFAULT_ENDIANNESS ?r1 = DEFAULT_ENDIANNESS r"
        "listening ?r1 = listening r"
        using True Cons by (simp_all add: queued_def listening_def)
      ultimately show ?thesis
        unfolding eq by (cases "(r, flow ?r1)" rule: chunk_post.cases) simp_all
    next
      case False
      with Cons "1.prems" show ?thesis
        by (subst flow.simps)
           (simp add: Let_def emit_end_def end_due_def onEnd_def onData_def listening_def
                      queued_def consistent_def pushable_def stream_pause_def)
    qed
  qed
qed

lemma READ_CHUNK_post: "consistent r \<Longrightarrow> chunk_post r (READ_CHUNK r)"
proof -
  assume c: "consistent r"
  let ?r0 = "r\<lparr>RESOLVE := True, INPUT := stream_resume (INPUT r)\<rparr>"
  have q: "queued ?r0 = queued r" "BYTES_READ ?r0 = BYTES_READ r"
    "DEFAULT_ENDIANNESS ?r0 = DEFAULT_ENDIANNESS r" "ended (INPUT ?r0) = ended (INPUT r)"
    "listening ?r0 = listening r"
    by (simp_all add: queued_def stream_resume_def listening_def)
  consider (zero) "BYTES_UNREAD r = Some 0"
    | (listen) "BYTES_UNREAD r \<noteq> Some 0" "dataListener (INPUT r)"
    | (deaf) "BYTES_UNREAD r \<noteq> Some 0" "\<not> dataListener (INPUT r)"
    by blast
  then show ?thesis
  proof cases
    case zero
    with c show ?thesis by (simp add: READ_CHUNK_def consistent_def queued_def)
  next
    case listen
    with c have l: "listening ?r0"
      by (simp add: listening_def consistent_def stream_resume_def)
    have "chunk_post ?r0 (flow ?r0)"
      by (rule flow_listening [OF l]) (simp_all add: stream_resume_def)
    then have "chunk_post r (flow ?r0)"
      using q by (cases "(?r0, flow ?r0)" rule: chunk_post.cases) simp_all
    with listen show ?thesis by (simp add: READ_CHUNK_def)
  next
    case deaf
    with c have d: "\<not> dataListener (INPUT ?r0)" "\<not> endListener (INPUT ?r0)"
      by (simp_all add: consistent_def stream_resume_def)
    note f = flow_no_listener [OF d]
    obtain r' where r': "flow ?r0 = (Pending, r')"
      using f by (cases "flow ?r0") auto
    have "consistent r'"
      using f c deaf unfolding r' by (auto simp: consistent_def stream_resume_def)
    moreover have "\<not> listening r" using deaf by (simp add: listening_def)
    ultimately show ?thesis using deaf r' by (simp add: READ_CHUNK_def)
  qed
qed

lemma UNREAD_CHUNK_post:
  assumes "consistent r" and "pushable r"
  shows "\<exists>r'. UNREAD_CHUNK c r = Inr r' \<and> queued r' = c @ queued r \<and> consistent r' \<and>
          pushable r' \<and> BYTES_READ r' = BYTES_READ r \<and>
          DEFAULT_ENDIANNESS r' = DEFAULT_ENDIANNESS r"
  using assms
  by (auto simp: UNREAD_CHUNK_def stream_unshift_def consistent_def pushable_def queued_def
                 stream_end_def stream_write_def PassThroughStream_def)

lemma copy_append:
  assumes "offset + len \<le> length buffer" and "len \<le> length c"
  shows "take (offset + len) (copy c buffer offset len) = take offset buffer @ take len c"
    and "n \<ge> offset + len \<Longrightarrow> drop n (copy c buffer offset len) = drop n buffer"
  using assms by (simp_all add: copy_def min_def)

lemma min_split: "(a::nat) \<le> n \<Longrightarrow> min n (a + q) = a + min (n - a) q"
  by (auto simp: min_def)

lemma READ_BUFFER_loop_post:
  "consistent r \<Longrightarrow> offset \<le> length buffer \<Longrightarrow>
   loop_post offset buffer r (READ_BUFFER_loop offset buffer r)"
proof (induction offset buffer r rule: READ_BUFFER_loop.induct)
  case (1 offset buffer r)
  note cons = \<open>consistent r\<close>
  show ?case
  proof (cases "offset < length buffer")
    case False
    then have "READ_BUFFER_loop offset buffer r = (Fulfilled (offset, buffer), r)"
      by (subst READ_BUFFER_loop.simps) simp
    with False cons "1.prems" show ?thesis by simp
  next
    case True
    obtain res r1 where rc: "READ_CHUNK r = (res, r1)" by fastforce
    have cp: "chunk_post r (res, r1)"
      using READ_CHUNK_post [OF cons] rc by simp
    show ?thesis
    proof (cases "(r, res, r1)" rule: chunk_post.cases)
      case (1 r0 c r1')
      then have res: "res = Fulfilled (Some c)" by simp
      let ?len = "min (length buffer - offset) (length c)"
      let ?b = "copy c buffer offset ?len"
      have c: "c \<noteq> []" "queued r = c @ queued r1" "consistent r1" "pushable r1"
        "DEFAULT_ENDIANNESS r1 = DEFAULT_ENDIANNESS r"
        "listening r1 \<and> ended (INPUT r1) = ended (INPUT r) \<or> BYTES_UNREAD r1 = Some 0"
        using cp res by simp_all
      have lb: "length ?b = length buffer"
        using True by (intro length_copy) auto
      show ?thesis
      proof (cases "?len = length c")
        case whole: True
        have wl: "?len = length c" "length c \<le> length buffer - offset"
          using whole by simp_all
        let ?o1 = "offset + length c"
        let ?b1 = "copy c buffer offset (length c)"
        have lb1: "length ?b1 = length buffer"
          using lb wl(1) by simp
        have eq: "READ_BUFFER_loop offset buffer r = READ_BUFFER_loop ?o1 ?b1 r1"
          using True rc res whole by (subst READ_BUFFER_loop.simps) (simp add: Let_def)
        have "loop_post (offset + ?len) ?b r1 (READ_BUFFER_loop (offset + ?len) ?b r1)"
          using True rc res whole c lb
          by (intro "1.IH"(1)[OF True rc [symmetric] res refl refl refl refl]) auto
        then have IH: "loop_post ?o1 ?b1 r1 (READ_BUFFER_loop ?o1 ?b1 r1)"
          using wl(1) by simp
        obtain out r' where out: "READ_BUFFER_loop ?o1 ?b1 r1 = (out, r')"
          by fastforce
        define k1 where "k1 = min (length buffer - ?o1) (length (queued r1))"
        define k where "k = min (length buffer - offset) (length (queued r))"
        have lq: "length (queued r) = length c + length (queued r1)"
          using c(2) by simp
        have k: "k = length c + k1"
          unfolding k_def k1_def lq using min_split [OF wl(2)]
          by (simp add: diff_diff_left [symmetric] del: diff_diff_left)
        show ?thesis
        proof (cases "(?o1, ?b1, r1, out, r')" rule: loop_post.cases)
          case (1 o1 b1 r1a offset' buffer' r'a)
          then have o: "out = Fulfilled (offset', buffer')" by simp
          have p: "offset' = ?o1 + k1"
            "buffer' = take ?o1 ?b1 @ take k1 (queued r1) @ drop (?o1 + k1) ?b1"
            "queued r' = drop k1 (queued r1)" "consistent r'"
            "?o1 < length buffer \<longrightarrow> pushable r'"
            "DEFAULT_ENDIANNESS r' = DEFAULT_ENDIANNESS r1"
            using IH unfolding out o k1_def by (simp_all add: Let_def lb1)
          have r'eq: "?o1 < length buffer \<or> r' = r1"
          proof (cases "?o1 < length buffer")
            case False
            then have "READ_BUFFER_loop ?o1 ?b1 r1 = (Fulfilled (?o1, ?b1), r1)"
              by (subst READ_BUFFER_loop.simps) (simp add: lb1)
            with out show ?thesis by simp
          qed simp
          have t1: "take ?o1 ?b1 = take offset buffer @ c"
            using copy_append(1)[of offset "length c" buffer c] True wl(2) by simp
          have t2: "drop (?o1 + k1) ?b1 = drop (offset + k) buffer"
            using copy_append(2)[of offset "length c" buffer c "?o1 + k1"] True wl(2) k
            by (simp add: add.assoc)
          have t3: "take k (queued r) = c @ take k1 (queued r1)"
            unfolding k c(2) by simp
          have t4: "drop k (queued r) = drop k1 (queued r1)"
            unfolding k c(2) by simp
          have "pushable r'" using p(5) r'eq c(4) by auto
          then show ?thesis
            unfolding eq out o loop_post.simps Let_def k_def [symmetric]
            using p(1,3,4,6) k t3 t4 c(5) unfolding p(2) t1 t2 by simp
        next
          case (2 o1 b1 r1a r'a)
          then have o: "out = Pending" by simp
          have p: "consistent r'"
            "live r1 \<longrightarrow> \<not> ended (INPUT r1) \<and> length (queued r1) < length buffer - ?o1"
            using IH unfolding out o by (simp_all add: lb1)
          have "\<not> ended (INPUT r) \<and> length (queued r) < length buffer - offset"
            if "live r"
          proof -
            have l1: "live r1" using c(6) by (auto simp: live_def)
            have "BYTES_UNREAD r1 \<noteq> Some 0"
            proof
              assume "BYTES_UNREAD r1 = Some 0"
              then have "READ_BUFFER_loop ?o1 ?b1 r1 \<noteq> (Pending, r')"
                by (subst READ_BUFFER_loop.simps) (simp add: READ_CHUNK_def)
              with out o show False by simp
            qed
            with c(6) have "ended (INPUT r1) = ended (INPUT r)" by simp
            with p(2) l1 show ?thesis
              unfolding lq using wl(2) by auto
          qed
          with p(1) show ?thesis unfolding eq out o by simp
        next
          case (3 o1 b1 r1a e r'a)
          with IH out show ?thesis by simp
        next
          case (4 o1 b1 r1a e r'a)
          with IH out show ?thesis by simp
        qed
      next
        case part: False
        let ?n = "length buffer - offset"
        have len: "?len = ?n" "?n < length c" "?n \<noteq> length c"
          using part by (simp_all add: min_def split: if_splits)
        let ?b2 = "copy c buffer offset ?n"
        obtain r2 where r2: "UNREAD_CHUNK (drop ?n c) r1 = Inr r2"
          "queued r2 = drop ?n c @ queued r1" "consistent r2" "pushable r2"
          "DEFAULT_ENDIANNESS r2 = DEFAULT_ENDIANNESS r1"
          using UNREAD_CHUNK_post [OF c(3,4), of "drop ?n c"] by blast
        have lb2: "length ?b2 = length buffer"
          using lb len(1) by simp
        have fin: "READ_BUFFER_loop (offset + ?n) ?b2 r2 = (Fulfilled (offset + ?n, ?b2), r2)"
          using lb2 True by (subst READ_BUFFER_loop.simps) simp
        have eq: "READ_BUFFER_loop offset buffer r = (Fulfilled (offset + ?n, ?b2), r2)"
          using True rc res r2(1) fin len(3)
          by (subst READ_BUFFER_loop.simps) (simp add: Let_def len(1))
        have k: "min (length buffer - offset) (length (queued r)) = ?n"
          using len(2) c(2) by simp
        have b: "?b2 = take offset buffer @ take ?n c"
          using True by (simp add: copy_def)
        show ?thesis
          unfolding eq loop_post.simps Let_def k
          using b r2 c len(2) True by simp
      qed
    next
      case (2 r0 r1')
      then have res: "res = Fulfilled None" by simp
      have eq: "READ_BUFFER_loop offset buffer r = (Fulfilled (offset, buffer), r1)"
        using True rc res by (subst READ_BUFFER_loop.simps) simp
      show ?thesis
        unfolding eq using cp res by (simp add: pushable_def)
    next
      case (3 r0 r1')
      then have res: "res = Pending" by simp
      have eq: "READ_BUFFER_loop offset buffer r = (Pending, r1)"
        using True rc res by (subst READ_BUFFER_loop.simps) simp
      have "\<not> ended (INPUT r) \<and> length (queued r) < length buffer - offset" if "live r"
      proof -
        have "BYTES_UNREAD r \<noteq> Some 0"
          using rc res by (auto simp: READ_CHUNK_def)
        with that have "listening r" by (simp add: live_def)
        with cp res True show ?thesis by simp
      qed
      then show ?thesis
        unfolding eq using cp res by simp
    next
      case (4 r0 e r1')
      with cp show ?thesis by simp
    next
      case (5 r0 e r1')
      with cp show ?thesis by simp
    qed
  qed
qed

lemma READ_BUFFER_post:
  assumes cons: "consistent r" and bl: "0 < blockLength"
  shows "case READ_BUFFER buffer blockLength r of
           (Fulfilled (blockCount, buffer'), r') \<Rightarrow>
             (let offset = min (length buffer) (length (queued r)) in
              blockCount = Num (offset div blockLength) \<and>
              buffer' = take offset (queued r) @ drop offset buffer \<and>
              queued r' = drop (offset div blockLength * blockLength) (take offset (queued r))
                            @ drop offset (queued r) \<and>
              consistent r' \<and> DEFAULT_ENDIANNESS r' = DEFAULT_ENDIANNESS r)
         | (Pending, r') \<Rightarrow>
             consistent r' \<and>
             (live r \<longrightarrow> \<not> ended (INPUT r) \<and> length (queued r) < length buffer)
         | (Rejected e, r') \<Rightarrow> False
         | (Crashed e, r') \<Rightarrow> False"
proof -
  obtain out r1 where out: "READ_BUFFER_loop 0 buffer r = (out, r1)" by fastforce
  have lp: "loop_post 0 buffer r (out, r1)"
    using READ_BUFFER_loop_post [OF cons, of 0 buffer] out by simp
  show ?thesis
  proof (cases "(0::nat, buffer, r, out, r1)" rule: loop_post.cases)
    case (1 o1 b1 r0 offset buffer' r1')
    then have o: "out = Fulfilled (offset, buffer')" by simp
    define q where "q = queued r"
    have p: "offset = min (length buffer) (length q)"
      "buffer' = take offset q @ drop offset buffer"
      "queued r1 = drop offset q" "consistent r1" "0 < length buffer \<longrightarrow> pushable r1"
      "DEFAULT_ENDIANNESS r1 = DEFAULT_ENDIANNESS r"
      using lp unfolding o q_def by (simp_all add: Let_def)
    define n where "n = offset div blockLength * blockLength"
    have n: "n \<le> offset" unfolding n_def by simp
    have ol: "offset \<le> length q" "offset \<le> length buffer" using p(1) by simp_all
    have lb: "length buffer' = length buffer"
      unfolding p(2) using ol by simp
    have ex: "slice buffer' (times (floor_div offset blockLength) blockLength) (Num offset)
                = drop n (take offset q)"
      using bl n ol lb unfolding p(2)
      by (simp add: slice_def floor_div_def n_def [symmetric] min_absorb1 min_absorb2 drop_take)
    have "\<exists>r2. UNREAD_CHUNK (drop n (take offset q)) r1 = Inr r2 \<and>
            queued r2 = drop n (take offset q) @ queued r1 \<and> consistent r2 \<and>
            DEFAULT_ENDIANNESS r2 = DEFAULT_ENDIANNESS r1"
    proof (cases "0 < length buffer")
      case True
      with p(5) have "pushable r1" by simp
      from UNREAD_CHUNK_post [OF p(4) this] show ?thesis by blast
    next
      case False
      then have "drop n (take offset q) = []" using ol by simp
      then show ?thesis using p(4) by (simp add: UNREAD_CHUNK_def)
    qed
    then obtain r2 where r2: "UNREAD_CHUNK (drop n (take offset q)) r1 = Inr r2"
      "queued r2 = drop n (take offset q) @ queued r1" "consistent r2"
      "DEFAULT_ENDIANNESS r2 = DEFAULT_ENDIANNESS r1"
      by blast
    have "READ_BUFFER buffer blockLength r
            = (Fulfilled (floor_div offset blockLength, buffer'), r2)"
      unfolding READ_BUFFER_def out o using ex r2(1) by (simp add: Let_def)
    then show ?thesis
      using bl r2 p unfolding q_def [symmetric] n_def
      by (simp add: Let_def floor_div_def)
  next
    case (2 o1 b1 r0 r1')
    then have o: "out = Pending" by simp
    have "READ_BUFFER buffer blockLength r = (Pending, r1)"
      unfolding READ_BUFFER_def out o by simp
    then show ?thesis using lp o by simp
  next
    case (3 o1 b1 r0 e r1')
    with lp show ?thesis by simp
  next
    case (4 o1 b1 r0 e r1')
    with lp show ?thesis by simp
  qed
qed

lemma consistent_UNREAD_CHUNK:
  "consistent r \<Longrightarrow> UNREAD_CHUNK c r = Inr r' \<Longrightarrow> consistent r'"
  by (auto simp: UNREAD_CHUNK_def stream_unshift_def consistent_def
                 stream_end_def stream_write_def PassThroughStream_def
           split: if_splits)

lemma consistent_READ_CHUNK: "consistent r \<Longrightarrow> consistent (snd (READ_CHUNK r))"
  using READ_CHUNK_post [of r]
  by (cases "(r, READ_CHUNK r)" rule: chunk_post.cases) auto

lemma consistent_READ_BUFFER:
  assumes "consistent r" and "0 < blockLength"
  shows "consistent (snd (READ_BUFFER buffer blockLength r))"
proof -
  obtain out r' where o: "READ_BUFFER buffer blockLength r = (out, r')" by fastforce
  show ?thesis
    using READ_BUFFER_post [OF assms, of buffer] unfolding o
    by (cases out) (auto simp: Let_def)
qed

text \<open>A chunk request of this reader is never rejected: it has no handler for errors.\<close>

lemma flow_never_rejects: "fst (flow r) \<noteq> Rejected e"
proof (induction r rule: flow.induct)
  case (1 r)
  show ?case
  proof (cases "flowing (INPUT r)")
    case False
    then show ?thesis by (subst flow.simps) (simp add: Let_def)
  next
    case True
    show ?thesis
    proof (cases "buf (INPUT r)")
      case Nil
      with True show ?thesis
        by (subst flow.simps) (simp add: Let_def split: prod.splits settle.splits)
    next
      case (Cons c cs)
      let ?r1 = "r\<lparr>INPUT := (INPUT r)\<lparr>buf := cs\<rparr>\<rparr>"
      obtain x r2 where h: "(if dataListener (INPUT r) then onData c ?r1 else (NotSettled, ?r1)) = (x, r2)"
        by fastforce
      show ?thesis
      proof (cases x)
        case NotSettled
        have "fst (flow r2) \<noteq> Rejected e"
          by (rule "1.IH"[of "INPUT r" c cs ?r1 x r2]) (use True Cons h NotSettled in auto)
        moreover have "flow r = flow r2"
          using True Cons h NotSettled by (subst flow.simps) (simp add: Let_def)
        ultimately show ?thesis by simp
      next
        case (Resolved v)
        with True Cons h show ?thesis by (subst flow.simps) (simp add: Let_def)
      next
        case (HandlerThrew e')
        with True Cons h show ?thesis by (subst flow.simps) (simp add: Let_def)
      qed
    qed
  qed
qed

lemma READ_CHUNK_never_rejects: "fst (READ_CHUNK r) \<noteq> Rejected e"
  by (simp add: READ_CHUNK_def flow_never_rejects)

lemma UNREAD_then_READ_before_end:
  assumes "consistent r" and "listening r" and "B \<noteq> []"
  shows "\<exists>r1. UNREAD_CHUNK B r = Inr r1 \<and> fst (READ_CHUNK r1) = Fulfilled (Some B)
              \<and> queued (snd (READ_CHUNK r1)) = queued r"
proof -
  let ?r1 = "r\<lparr>INPUT := (INPUT r)\<lparr>buf := B # buf (INPUT r)\<rparr>\<rparr>"
  have u: "UNREAD_CHUNK B r = Inr ?r1"
    using assms by (simp add: UNREAD_CHUNK_def stream_unshift_def listening_def)
  define r2 where "r2 = ?r1\<lparr>RESOLVE := True, INPUT := stream_resume (INPUT ?r1)\<rparr>"
  have "\<exists>r3. flow r2 = (Fulfilled (Some B), r3) \<and> queued r3 = queued r"
    using assms
    by (subst flow.simps)
       (simp add: r2_def Let_def stream_resume_def listening_def onData_def
                  stream_pause_def queued_def emit_end_def onEnd_def)
  moreover have "READ_CHUNK ?r1 = flow r2"
    using assms by (simp add: READ_CHUNK_def listening_def r2_def)
  ultimately show ?thesis using u by auto
qed

lemma read_without_allowPart:
  "\<not> opt_allowPart opts \<Longrightarrow> fst (read native container opts r) = Fulfilled None"
  by (simp add: read_def Let_def)

text \<open>The scenario, evaluated: the bytes first, the elements from them.\<close>

lemma elements_LE:
  "elements LE Uint32Array [0, 0, 0, 1, 0, 0, 0, 2] = [Integer 0x01000000, Integer 0x02000000]"
  by (simp add: elements_def index_def native_value_def upt_conv_Cons)

lemma elements_BE:
  "elements BE Uint32Array [1, 0, 0, 0, 2, 0, 0, 0] = [Integer 0x01000000, Integer 0x02000000]"
  by (simp add: elements_def index_def native_value_def upt_conv_Cons)

lemma scenario_bytes:
  "fst (READ_TYPED_ARRAY LE (Uint32Array, replicate 8 0) 1 BE (scenario LE))
     = Fulfilled (Num 2, [0, 0, 0, 1, 0, 0, 0, 2])"
  "fst (READ_TYPED_ARRAY BE (Uint32Array, replicate 8 0) 1 BE (scenario BE))
     = Fulfilled (Num 2, [1, 0, 0, 0, 2, 0, 0, 0])"
  by code_simp+

lemma scenario_rest:
  "buf (INPUT (snd (READ_TYPED_ARRAY native (Uint32Array, replicate 8 0) 1 BE (scenario native))))
     = [[3], [0, 0, 0, 4], [0, 0]]
   \<and> BYTES_UNREAD (snd (READ_TYPED_ARRAY native (Uint32Array, replicate 8 0) 1 BE (scenario native)))
     = None
   \<and> fst (READ_BUFFER (replicate 7 0) 1
          (snd (READ_TYPED_ARRAY native (Uint32Array, replicate 8 0) 1 BE (scenario native))))
     = Fulfilled (Num 7, [3, 0, 0, 0, 4, 0, 0])
   \<and> BYTES_UNREAD (snd (READ_BUFFER (replicate 7 0) 1
          (snd (READ_TYPED_ARRAY native (Uint32Array, replicate 8 0) 1 BE (scenario native)))))
     = Some 0
   \<and> queued (snd (READ_BUFFER (replicate 7 0) 1
          (snd (READ_TYPED_ARRAY native (Uint32Array, replicate 8 0) 1 BE (scenario native)))))
     = []"
proof (cases native)
  case LE
  show ?thesis unfolding LE by code_simp
next
  case BE
  show ?thesis unfolding BE by code_simp
qed

text \<open>
  What \<open>READ_BUFFER\<close> returns when it returns, for a block length of at least 1: the block
  count is \<open>offset div blockLength\<close> for the \<open>offset\<close> the loop reached, the destination
  starts with the first \<open>offset\<close> bytes that were queued, and the input stream then holds
  the excess before what was not consumed. It returns when the reader still listens to
  its input, or has seen it end with nothing queued, and the input has ended or holds
  enough bytes. Whether the stream that holds the excess will ever deliver it is another
  matter: see claim C1.
\<close>

lemma READ_BUFFER_result:
  assumes "consistent r" and "0 < blockLength"
  shows "(\<forall>blockCount buffer' r'.
            READ_BUFFER buffer blockLength r = (Fulfilled (blockCount, buffer'), r') \<longrightarrow>
            (let offset = min (length buffer) (length (queued r)) in
               (\<exists>r1. READ_BUFFER_loop 0 buffer r = (Fulfilled (offset, buffer'), r1)) \<and>
               blockCount = Num (offset div blockLength) \<and>
               buffer' = take offset (queued r) @ drop offset buffer \<and>
               queued r' = drop (offset div blockLength * blockLength) (take offset (queued r))
                             @ drop offset (queued r)))
       \<and> (live r \<and> (ended (INPUT r) \<or> length buffer \<le> length (queued r)) \<longrightarrow>
            (\<exists>x r'. READ_BUFFER buffer blockLength r = (Fulfilled x, r')))"
proof (intro conjI allI impI)
  fix blockCount buffer' r'
  assume f: "READ_BUFFER buffer blockLength r = (Fulfilled (blockCount, buffer'), r')"
  let ?offset = "min (length buffer) (length (queued r))"
  have p: "blockCount = Num (?offset div blockLength)"
    "buffer' = take ?offset (queued r) @ drop ?offset buffer"
    "queued r' = drop (?offset div blockLength * blockLength) (take ?offset (queued r))
                   @ drop ?offset (queued r)"
    using READ_BUFFER_post [OF assms, of buffer] unfolding f by (simp_all add: Let_def)
  obtain out r1 where l: "READ_BUFFER_loop 0 buffer r = (out, r1)" by fastforce
  from f obtain offset where out: "out = Fulfilled (offset, buffer')"
    unfolding READ_BUFFER_def l
    by (auto simp: Let_def split: outcome.splits sum.splits)
  have "offset = ?offset"
    using READ_BUFFER_loop_post [OF assms(1), of 0 buffer] unfolding l out
    by (simp add: Let_def)
  with l out have "\<exists>r1. READ_BUFFER_loop 0 buffer r = (Fulfilled (?offset, buffer'), r1)"
    by blast
  with p show "let offset = ?offset in
               (\<exists>r1. READ_BUFFER_loop 0 buffer r = (Fulfilled (offset, buffer'), r1)) \<and>
               blockCount = Num (offset div blockLength) \<and>
               buffer' = take offset (queued r) @ drop offset buffer \<and>
               queued r' = drop (offset div blockLength * blockLength) (take offset (queued r))
                             @ drop offset (queued r)"
    by (simp add: Let_def)
next
  assume a: "live r \<and> (ended (INPUT r) \<or> length buffer \<le> length (queued r))"
  obtain out r' where o: "READ_BUFFER buffer blockLength r = (out, r')" by fastforce
  show "\<exists>x r'. READ_BUFFER buffer blockLength r = (Fulfilled x, r')"
    using READ_BUFFER_post [OF assms, of buffer] a unfolding o
    by (cases out) auto
qed

section \<open>Properties of the readers of the earlier revisions\<close>

lemma pr_readXBE_is_readXLE: "pr_readXBE native bufferName s = pr_readXLE native bufferName s"
  by (simp add: pr_readXBE_def pr_readXLE_def)

lemma failed_source_error:
  "errorListener s \<Longrightarrow> \<not> pr_end s \<Longrightarrow> failed e (snd (source_error e s))"
  by (auto simp: failed_def source_error_def pr_errorHandler_def pr_dispatch_def Let_def
                 count_remaining_def pause_unless_over_def add_bytesRemain_def stream_resume_def
           split: list.splits)

lemma source_error_data:
  "errorListener s \<Longrightarrow>
   pr_data (snd (source_error e s)) = (if pr_resolve s then tl (pr_data s) else pr_data s)"
  by (auto simp: failed_def source_error_def pr_errorHandler_def pr_dispatch_def Let_def
                 count_remaining_def pause_unless_over_def add_bytesRemain_def stream_resume_def
           split: list.splits)

lemma source_error_pending:
  "errorListener s \<Longrightarrow> \<not> pr_end s \<Longrightarrow> pr_resolve s \<Longrightarrow>
   fst (source_error e s) =
     (case pr_data s of [] \<Rightarrow> RejectWith (SourceFailure e) | c # q \<Rightarrow> ResolveWith (Some c))"
  by (auto simp: failed_def source_error_def pr_errorHandler_def pr_dispatch_def Let_def
                 count_remaining_def pause_unless_over_def add_bytesRemain_def stream_resume_def
           split: list.splits)

lemma failed_getChunk:
  assumes "failed e s"
  shows "fst (pr_getChunk s) =
           (case pr_data s of [] \<Rightarrow> Rejected (SourceFailure e) | c # q \<Rightarrow> Fulfilled (Some c))"
    and "pr_data (snd (pr_getChunk s)) = tl (pr_data s)"
    and "failed e (snd (pr_getChunk s))"
  using assms
  by (auto simp: failed_def pr_getChunk_def pr_dispatch_def Let_def
                 pause_unless_over_def add_bytesRemain_def
           split: list.splits)

lemma failed_ungetChunk:
  "failed e s \<Longrightarrow> failed e (pr_ungetChunk c s) \<and> pr_data (pr_ungetChunk c s) = c # pr_data s"
  by (auto simp: failed_def pr_ungetChunk_def add_bytesRemain_def)

lemma pr_flow_no_listener:
  "\<not> dataListener (pr_stream s) \<Longrightarrow> \<not> endListener (pr_stream s) \<Longrightarrow>
   fst (pr_flow s) = Pending \<and>
   (\<exists>st. snd (pr_flow s) = s\<lparr>pr_stream := st\<rparr> \<and>
         \<not> dataListener st \<and> \<not> endListener st \<and>
         (flowing (pr_stream s) \<longrightarrow> buf st = []))"
proof (induction s rule: pr_flow.induct)
  case (1 s)
  let ?st = "pr_stream s"
  show ?case
  proof (cases "flowing ?st")
    case False
    then have "pr_flow s = (Pending, s)" by (subst pr_flow.simps) (simp add: Let_def)
    moreover have "s = s\<lparr>pr_stream := ?st\<rparr>" by simp
    ultimately show ?thesis using False "1.prems" by (metis fst_conv snd_conv)
  next
    case True
    show ?thesis
    proof (cases "buf ?st")
      case Nil
      have "pr_flow s =
              (if end_due ?st then (Pending, s\<lparr>pr_stream := ?st\<lparr>endEmitted := True\<rparr>\<rparr>)
               else (Pending, s))"
        using True Nil "1.prems" by (subst pr_flow.simps) (simp add: Let_def)
      moreover have "s = s\<lparr>pr_stream := ?st\<rparr>" by simp
      ultimately show ?thesis
        using Nil "1.prems"
        by (cases "end_due ?st") (auto intro: exI [of _ "?st\<lparr>endEmitted := True\<rparr>"] exI [of _ ?st])
    next
      case (Cons c cs)
      let ?s1 = "s\<lparr>pr_stream := ?st\<lparr>buf := cs\<rparr>\<rparr>"
      have eq: "pr_flow s = pr_flow ?s1"
        using True Cons "1.prems" by (subst pr_flow.simps) (simp add: Let_def)
      have "fst (pr_flow ?s1) = Pending \<and>
            (\<exists>st. snd (pr_flow ?s1) = ?s1\<lparr>pr_stream := st\<rparr> \<and>
                  \<not> dataListener st \<and> \<not> endListener st \<and>
                  (flowing (pr_stream ?s1) \<longrightarrow> buf st = []))"
        by (rule "1.IH"[of ?st c cs ?s1 Quiet ?s1]) (use True Cons "1.prems" in auto)
      then show ?thesis unfolding eq using True by auto
    qed
  qed
qed

lemma failed_source_write:
  assumes "failed e s"
  shows "failed e (source_write c s) \<and> pr_data (source_write c s) = pr_data s"
proof -
  let ?s1 = "s\<lparr>pr_stream := stream_write c (pr_stream s)\<rparr>"
  have "\<not> dataListener (pr_stream ?s1)" "\<not> endListener (pr_stream ?s1)"
    using assms by (simp_all add: failed_def stream_write_def)
  from pr_flow_no_listener [OF this] obtain st where
    "snd (pr_flow ?s1) = ?s1\<lparr>pr_stream := st\<rparr>" "\<not> dataListener st" "\<not> endListener st"
    by blast
  then show ?thesis
    using assms by (simp add: source_write_def source_emits_def failed_def)
qed

lemma serve_failed: "failed e s \<Longrightarrow> serve ops s = after_failure e ops (pr_data s)"
proof (induction ops arbitrary: s)
  case Nil
  show ?case by simp
next
  case (Cons op ops)
  show ?case
  proof (cases op)
    case Get
    note g = failed_getChunk [OF Cons.prems]
    show ?thesis
      using Cons.IH [OF g(3)] g(1,2) unfolding Get
      by (cases "pr_data s") simp_all
  next
    case (Unget c)
    show ?thesis
      using Cons.IH [of "pr_ungetChunk c s"] failed_ungetChunk [OF Cons.prems, of c]
      unfolding Unget by simp
  next
    case (Write c)
    show ?thesis
      using Cons.IH [of "source_write c s"] failed_source_write [OF Cons.prems, of c]
      unfolding Write by simp
  qed
qed

lemma pr_unget_then_get:
  "fst (pr_getChunk (pr_ungetChunk B s)) = Fulfilled (Some B)
   \<and> pr_data (snd (pr_getChunk (pr_ungetChunk B s))) = pr_data s"
  by (simp add: pr_getChunk_def pr_ungetChunk_def pr_dispatch_def add_bytesRemain_def
                pause_unless_over_def Let_def)

text \<open>
  \<open>read\<close> of \<open>src/reader.js\<close> and \<open>src/unnamed/part_000\<close> awaits the fill: one byte and the end
  for a buffer of two bytes is the error, with the container and the block count 1. A scalar
  read that fails leaves its bytes to the next read.
\<close>

lemma awaited_read_fails_on_short_input:
  "fst (p0_read LE (Buffer [0, 0]) default_options (source_end (source_write [1] ProReader)))
     = Rejected (NotEnoughErrorWith [1, 0] (Num 1))
   \<and> fst (p0_read LE (Buffer [0, 0]) default_options (source_write [1, 2, 3] ProReader))
     = Fulfilled None"
  by code_simp

lemma part_000_failed_scalar_read_keeps_bytes:
  "fst (p0_readX LE UInt32 None (source_end (source_write [1, 2] ProReader)))
     = Rejected NotEnoughError
   \<and> fst (p0_readX LE UInt16 None
            (snd (p0_readX LE UInt32 None (source_end (source_write [1, 2] ProReader)))))
     = Fulfilled (Integer 513)"
  by code_simp

text \<open>
  What \<open>_errorHandler\<close> of \<open>src/proreader.js\<close> leaves: a pending request is settled at once,
  rejected with the error when \<open>_data\<close> is empty; from then on the chunks in \<open>_data\<close>,
  and those pushed back later, are delivered first, every request made when \<open>_data\<close> is
  empty is rejected with that same error, and what the source writes is delivered to no
  request: the handlers are no longer registered on \<open>_stream\<close>.
\<close>

lemma failed_reader_replays_error:
  assumes "errorListener s" and "\<not> pr_end s"
  shows "(pr_resolve s \<longrightarrow>
            fst (source_error e s) =
              (case pr_data s of
                 [] \<Rightarrow> RejectWith (SourceFailure e)
               | c # q \<Rightarrow> ResolveWith (Some c)))
       \<and> (\<not> pr_resolve s \<longrightarrow> fst (source_error e s) = Quiet)
       \<and> serve ops (snd (source_error e s)) =
           after_failure e ops (if pr_resolve s then tl (pr_data s) else pr_data s)"
proof (intro conjI impI)
  assume "pr_resolve s"
  then show "fst (source_error e s) =
              (case pr_data s of
                 [] \<Rightarrow> RejectWith (SourceFailure e)
               | c # q \<Rightarrow> ResolveWith (Some c))"
    using source_error_pending [OF assms] by simp
next
  assume "\<not> pr_resolve s"
  then show "fst (source_error e s) = Quiet"
    using assms
    by (simp add: source_error_def pr_errorHandler_def pr_dispatch_def Let_def
                  count_remaining_def)
next
  show "serve ops (snd (source_error e s)) =
           after_failure e ops (if pr_resolve s then tl (pr_data s) else pr_data s)"
    using serve_failed [OF failed_source_error [OF assms, of e], of ops]
    unfolding source_error_data [OF assms(1)] .
qed

text \<open>
  \<open>src/reader.js\<close> hands the error on once: \<open>_dispatch\<close> takes \<open>{ error }\<close> off \<open>_events\<close> and
  does not put it back. The request after it is not rejected: it resumes the stream, on
  which the data handler is still registered, and is resolved with the next chunk.
\<close>

lemma reader_js_delivers_the_error_once:
  "fst (rj_readChunk rj_Reader) = Quiet
   \<and> fst (rj_errorHandler 7 (snd (rj_readChunk rj_Reader))) = RejectWith (SourceFailure 7)
   \<and> fst (rj_readChunk (snd (rj_errorHandler 7 (snd (rj_readChunk rj_Reader))))) = Quiet
   \<and> dataListener (rj_stream (snd (rj_readChunk
         (snd (rj_errorHandler 7 (snd (rj_readChunk rj_Reader)))))))
   \<and> flowing (rj_stream (snd (rj_readChunk
         (snd (rj_errorHandler 7 (snd (rj_readChunk rj_Reader)))))))
   \<and> fst (rj_dataHandler [8] (snd (rj_readChunk
         (snd (rj_errorHandler 7 (snd (rj_readChunk rj_Reader)))))))
       = ResolveWith (Some [8])"
  by code_simp

lemma part_000_excess_is_recovered:
  "fst (p0_readBuffer [0, 0, 0, 0] 2 (source_end (source_write [1, 2, 3] ProReader)))
     = Fulfilled (Num 1, [1, 2, 3, 0])
   \<and> fst (p0_readBuffer [0] 1
            (snd (p0_readBuffer [0, 0, 0, 0] 2 (source_end (source_write [1, 2, 3] ProReader)))))
     = Fulfilled (Num 1, [3])"
  by code_simp

section \<open>The claims\<close>

text \<open>
  Claim C1. \<open>READ_BUFFER\<close> should return \<open>blockCount = floor(offset / blockLength)\<close> and push
  the bytes copied beyond the last whole block back onto the front of the queue, and not
  drop them. In \<open>src/unnamed/part_001\<close>, on the input \<open>[1,2,3]\<close> and the end, with a buffer of
  four bytes and blocks of two: the loop copies three bytes and is handed the end, the
  block count is 1, and the excess byte 3 is pushed back; but the end has been seen, so
  \<open>UNREAD_CHUNK\<close> puts it into a new stream on which \<open>onData\<close> is not registered. The next
  fill stays pending, and the byte is gone from the queue. With a buffer of three bytes
  the same happens. (The queue of \<open>src/unnamed/part_000\<close> hands the byte to the next fill:
  lemma \<open>part_000_excess_is_recovered\<close>.)
\<close>

theorem excess_pushed_back_after_end_is_dropped:
  "fst (READ_BUFFER [0, 0, 0, 0] 2 (input_end (input_write [1, 2, 3] (Reader LE))))
     = Fulfilled (Num 1, [1, 2, 3, 0])
   \<and> queued (snd (READ_BUFFER [0, 0, 0, 0] 2 (input_end (input_write [1, 2, 3] (Reader LE)))))
     = [3]
   \<and> \<not> dataListener (INPUT (snd (READ_BUFFER [0, 0, 0, 0] 2
                                   (input_end (input_write [1, 2, 3] (Reader LE))))))
   \<and> fst (READ_BUFFER [0] 1
            (snd (READ_BUFFER [0, 0, 0, 0] 2 (input_end (input_write [1, 2, 3] (Reader LE))))))
     = Pending
   \<and> queued (snd (READ_BUFFER [0] 1
            (snd (READ_BUFFER [0, 0, 0, 0] 2 (input_end (input_write [1, 2, 3] (Reader LE)))))))
     = []
   \<and> fst (READ_BUFFER [0, 0, 0] 2 (input_end (input_write [1, 2, 3] (Reader LE))))
     = Fulfilled (Num 1, [1, 2, 3])
   \<and> fst (READ_BUFFER [0] 1
            (snd (READ_BUFFER [0, 0, 0] 2 (input_end (input_write [1, 2, 3] (Reader LE))))))
     = Pending"
  by code_simp

text \<open>
  Claim C2. With \<open>allowPart = false\<close>, \<open>read\<close> should fail with \<open>EndOfInput\<close>, carrying the
  container and the block count, when \<open>blockCount * blockLength\<close> is less than
  \<open>container.length\<close>. In \<open>src/unnamed/part_001\<close> it does not: the input holds one byte and
  ends, the buffer has two bytes, the fill achieves one block of one byte, and \<open>read\<close>
  returns normally. Its \<open>blockCount\<close> is the promise of the fill, not the count, so the
  comparison is with \<open>NaN\<close> (lemma \<open>read_without_allowPart\<close>: with \<open>allowPart = false\<close> it never
  fails). \<open>read\<close> of \<open>src/reader.js\<close> awaits the fill and fails as the claim says
  (lemma \<open>awaited_read_fails_on_short_input\<close>).
\<close>

theorem read_short_input_no_EndOfInput:
  "fst (READ_BUFFER [0, 0] 1 (input_end (input_write [1] (Reader LE))))
     = Fulfilled (Num 1, [1, 0])
   \<and> fst (read LE (Buffer [0, 0]) default_options (input_end (input_write [1] (Reader LE))))
     = Fulfilled None"
  by code_simp

text \<open>
  Claim C3. A push-back should be delivered first, byte for byte, to the next chunk
  requests. In \<open>src/unnamed/part_001\<close> that holds until the end of the input has been seen
  (lemma \<open>UNREAD_then_READ_before_end\<close>; in \<open>src/proreader.js\<close> always, lemma
  \<open>pr_unget_then_get\<close>), and not after: \<open>UNREAD_CHUNK\<close> then puts the bytes into a new stream on
  which \<open>onData\<close> and \<open>onEnd\<close> are not registered. Here the input is the chunk \<open>[1,2]\<close> and the
  end; two chunk requests deliver the chunk and the end; \<open>[1,2]\<close> is pushed back and is
  queued; the next chunk request stays pending, and the stream it resumed is empty.
\<close>

theorem push_back_after_end_is_never_delivered:
  "fst (READ_CHUNK ended_input) = Fulfilled (Some [1, 2])
   \<and> fst (READ_CHUNK (snd (READ_CHUNK ended_input))) = Fulfilled None
   \<and> \<not> isl (UNREAD_CHUNK [1, 2] (snd (READ_CHUNK (snd (READ_CHUNK ended_input)))))
   \<and> queued (projr (UNREAD_CHUNK [1, 2] (snd (READ_CHUNK (snd (READ_CHUNK ended_input))))))
       = [1, 2]
   \<and> fst (READ_CHUNK (projr (UNREAD_CHUNK [1, 2]
              (snd (READ_CHUNK (snd (READ_CHUNK ended_input)))))))
       = Pending
   \<and> queued (snd (READ_CHUNK (projr (UNREAD_CHUNK [1, 2]
                 (snd (READ_CHUNK (snd (READ_CHUNK ended_input)))))))) = []"
  by code_simp

text \<open>
  Claim C4. \<open>bytesUnread\<close> should be undefined before the end is seen, then the number of
  bytes queued: less by what is delivered, more by what is pushed back, 0 when the queue
  is exhausted. In \<open>src/unnamed/part_001\<close>: it is undefined before the end; a scalar read of
  four bytes fails on the input \<open>[1,2]\<close> and pushes the two bytes back, and \<open>bytesUnread\<close> is 2,
  as two bytes are queued; the next read empties the queue and \<open>bytesUnread\<close> is still 2; a
  second push-back, of one byte, leaves three bytes queued and \<open>bytesUnread\<close> at 2.
\<close>

theorem bytesUnread_after_end_is_not_the_queue_length:
  "BYTES_UNREAD ended_input = None
   \<and> fst (readX LE UInt32 None ended_input) = Rejected EndOfInput
   \<and> queued (snd (readX LE UInt32 None ended_input)) = [1, 2]
   \<and> BYTES_UNREAD (snd (readX LE UInt32 None ended_input)) = Some 2
   \<and> queued (snd (readX LE UInt16 None (snd (readX LE UInt32 None ended_input)))) = []
   \<and> BYTES_UNREAD (snd (readX LE UInt16 None (snd (readX LE UInt32 None ended_input))))
       = Some 2
   \<and> \<not> isl (UNREAD_CHUNK [3] (snd (readX LE UInt32 None ended_input)))
   \<and> queued (projr (UNREAD_CHUNK [3] (snd (readX LE UInt32 None ended_input)))) = [3, 1, 2]
   \<and> BYTES_UNREAD (projr (UNREAD_CHUNK [3] (snd (readX LE UInt32 None ended_input))))
       = Some 2"
  by code_simp

text \<open>
  Claim C5. For every scalar kind, the \<open>LE\<close> wrapper should ask for little-endian and the
  \<open>BE\<close> wrapper for big-endian data, so that they differ on bytes that are not a
  palindrome. On the bytes 1, 0 and a little-endian platform: in \<open>src/proreader.js\<close> both
  wrappers of \<open>readUInt16\<close> return 1, where a big-endian read returns 256 (both call
  \<open>this[methodName]('LE')\<close>, lemma \<open>pr_readXBE_is_readXLE\<close>); in \<open>src/unnamed/part_001\<close> the
  wrappers of \<open>readUInt16\<close> return 1 and 256, but \<open>readInt16\<close> is built on \<open>Int8Array\<close>:
  \<open>readInt16LE\<close> returns 1 from one byte and leaves the other queued, and \<open>readInt16BE\<close> fails
  with a \<open>TypeError\<close>, a buffer having no \<open>swap8\<close>.
\<close>

theorem wrappers_do_not_diverge:
  "fst (pr_readXLE LE UInt16 (source_write [1, 0] ProReader)) = Fulfilled (Integer 1)
   \<and> fst (pr_readXBE LE UInt16 (source_write [1, 0] ProReader)) = Fulfilled (Integer 1)
   \<and> fst (pr_readX LE UInt16 (Some BE) (source_write [1, 0] ProReader))
       = Fulfilled (Integer 256)
   \<and> fst (readXLE LE UInt16 (input_write [1, 0] (Reader LE))) = Fulfilled (Integer 1)
   \<and> fst (readXBE LE UInt16 (input_write [1, 0] (Reader LE))) = Fulfilled (Integer 256)
   \<and> fst (readXLE LE Int16 (input_write [1, 0] (Reader LE))) = Fulfilled (Integer 1)
   \<and> queued (snd (readXLE LE Int16 (input_write [1, 0] (Reader LE)))) = [0]
   \<and> fst (readXBE LE Int16 (input_write [1, 0] (Reader LE))) = Rejected TypeError"
  by code_simp

text \<open>
  Claim C6, as amended. In the scenario, reading a region of two unsigned 32-bit elements
  with big-endian order fills it with \<open>0x01000000\<close> and \<open>0x02000000\<close>, on a platform of either
  byte order: the eight bytes taken are 1,0,0,0,2,0,0,0, and the 3 of the chunk \<open>[0,3]\<close> is
  the ninth. The chunks \<open>[3]\<close>, \<open>[0,0,0,4]\<close> and \<open>[0,0]\<close>, seven bytes, stay queued, and
  \<open>bytesUnread\<close> is still undefined. Once these seven bytes have been read the end has been
  seen, nothing is queued and \<open>bytesUnread\<close> is 0.
\<close>

theorem scenario_read:
  "map_option (elements native Uint32Array \<circ> snd)
       (fulfilled (fst (READ_TYPED_ARRAY native (Uint32Array, replicate 8 0) 1 BE
                          (scenario native))))
     = Some [Integer 0x01000000, Integer 0x02000000]
   \<and> buf (INPUT (snd (READ_TYPED_ARRAY native (Uint32Array, replicate 8 0) 1 BE (scenario native))))
     = [[3], [0, 0, 0, 4], [0, 0]]
   \<and> BYTES_UNREAD (snd (READ_TYPED_ARRAY native (Uint32Array, replicate 8 0) 1 BE (scenario native)))
     = None
   \<and> fst (READ_BUFFER (replicate 7 0) 1
          (snd (READ_TYPED_ARRAY native (Uint32Array, replicate 8 0) 1 BE (scenario native))))
     = Fulfilled (Num 7, [3, 0, 0, 0, 4, 0, 0])
   \<and> BYTES_UNREAD (snd (READ_BUFFER (replicate 7 0) 1
          (snd (READ_TYPED_ARRAY native (Uint32Array, replicate 8 0) 1 BE (scenario native)))))
     = Some 0
   \<and> queued (snd (READ_BUFFER (replicate 7 0) 1
          (snd (READ_TYPED_ARRAY native (Uint32Array, replicate 8 0) 1 BE (scenario native)))))
     = []"
proof -
  have "map_option (elements native Uint32Array \<circ> snd)
       (fulfilled (fst (READ_TYPED_ARRAY native (Uint32Array, replicate 8 0) 1 BE
                          (scenario native))))
     = Some [Integer 0x01000000, Integer 0x02000000]"
  proof (cases native)
    case LE
    show ?thesis unfolding LE scenario_bytes by (simp add: fulfilled_def elements_LE)
  next
    case BE
    show ?thesis unfolding BE scenario_bytes by (simp add: fulfilled_def elements_BE)
  qed
  with scenario_rest [of native] show ?thesis by blast
qed

text \<open>
  The values of the claim as it stands are not what the read gives: the second element is
  not \<open>0x02000003\<close>, and what stays queued is not the four bytes 4,0,0,0.
\<close>

theorem scenario_counterexample:
  "map_option (elements LE Uint32Array \<circ> snd)
     (fulfilled (fst (READ_TYPED_ARRAY LE (Uint32Array, replicate 8 0) 1 BE (scenario LE))))
   \<noteq> Some [Integer 0x01000000, Integer 0x02000003]
   \<and> queued (snd (READ_TYPED_ARRAY LE (Uint32Array, replicate 8 0) 1 BE (scenario LE)))
     \<noteq> [4, 0, 0, 0]"
proof -
  have "queued (snd (READ_TYPED_ARRAY LE (Uint32Array, replicate 8 0) 1 BE (scenario LE)))
          = [3, 0, 0, 0, 4, 0, 0]"
    using scenario_rest [of LE] by (simp add: queued_def)
  then show ?thesis
    unfolding scenario_bytes by (simp add: fulfilled_def elements_LE)
qed

text \<open>
  Claim C7. When the source has written at least as many bytes as the buffer holds,
  \<open>read(buffer)\<close> should fill the buffer and raise \<open>bytesRead\<close> by exactly \<open>buffer.length\<close>,
  counting a byte that is pushed back and delivered again once. In \<open>src/unnamed/part_001\<close>
  the buffer is filled, but \<open>onData\<close> adds the length of every chunk it delivers and
  \<open>UNREAD_CHUNK\<close> takes nothing back: from the chunk \<open>[1,2,3]\<close>, a buffer of two bytes is
  filled with 1, 2 and \<open>bytesRead\<close> goes from 0 to 3; reading the byte pushed back then
  takes it to 4, for three bytes in all.
\<close>

theorem bytesRead_counts_pushed_back_bytes_twice:
  "BYTES_READ (input_write [1, 2, 3] (Reader LE)) = 0
   \<and> fst (READ_BUFFER [0, 0] 1 (input_write [1, 2, 3] (Reader LE))) = Fulfilled (Num 2, [1, 2])
   \<and> BYTES_READ (snd (READ_BUFFER [0, 0] 1 (input_write [1, 2, 3] (Reader LE)))) = 3
   \<and> BYTES_READ (snd (read LE (Buffer [0, 0]) default_options
                       (input_write [1, 2, 3] (Reader LE)))) = 3
   \<and> fst (READ_BUFFER [0] 1 (snd (READ_BUFFER [0, 0] 1 (input_write [1, 2, 3] (Reader LE)))))
       = Fulfilled (Num 1, [3])
   \<and> BYTES_READ (snd (READ_BUFFER [0] 1
                       (snd (READ_BUFFER [0, 0] 1 (input_write [1, 2, 3] (Reader LE)))))) = 4"
  by code_simp


text \<open>
  Claim C9. A scalar read that finds fewer bytes than one element before the end should
  fail with \<open>EndOfInput\<close> and push back every byte it consumed, so that the next read
  receives them. In \<open>src/unnamed/part_001\<close>, on the input \<open>[1,2]\<close> and the end, \<open>readUInt32\<close>
  fails with \<open>EndOfInput\<close> and the two bytes are queued again, in a stream on which the
  reader does not listen: the \<open>readUInt16\<close> that follows stays pending and the two bytes are
  gone from the queue. (In \<open>src/unnamed/part_000\<close> it returns them: lemma
  \<open>part_000_failed_scalar_read_keeps_bytes\<close>.)
\<close>

theorem failed_scalar_read_loses_bytes:
  "fst (readX LE UInt32 None (input_end (input_write [1, 2] (Reader LE)))) = Rejected EndOfInput
   \<and> queued (snd (readX LE UInt32 None (input_end (input_write [1, 2] (Reader LE))))) = [1, 2]
   \<and> fst (readX LE UInt16 None
            (snd (readX LE UInt32 None (input_end (input_write [1, 2] (Reader LE)))))) = Pending
   \<and> queued (snd (readX LE UInt16 None
            (snd (readX LE UInt32 None (input_end (input_write [1, 2] (Reader LE))))))) = []"
  by code_simp

text \<open>
  Claim C10. A chunk of length 0 handed to \<open>onData\<close> leaves the reader as it is and settles
  no chunk request, so \<open>bytesRead\<close> and \<open>bytesUnread\<close> keep their values; and pushing back a
  chunk of length 0 with \<open>UNREAD_CHUNK\<close> leaves the reader as it is.
\<close>

theorem zero_length_chunk_changes_nothing:
  "onData [] r = (NotSettled, r) \<and> UNREAD_CHUNK [] r = Inr r"
  by (simp add: onData_def UNREAD_CHUNK_def)

end
